theory Spec2Isabelle
  imports Main "HOL-Library.Word"
begin

unbundle bit_operations_syntax

section \<open>Command parser (neurapp-oo: NeurApp\_Parser)\<close>

text \<open>
  The parser scans a null-terminated line one character at a time. Characters are
  modelled as \<^typ>\<open>char\<close> (one byte each) and a line as a \<^typ>\<open>string\<close>; the
  scan stops at the first NUL byte, or at the end of the list, which stands for the
  terminator of the C string.

  The C standard leaves the signedness of plain \<open>char\<close> to the compiler. It only matters
  for the comparison \<open>' ' >= thischar\<close> on bytes above 127, so the model takes it as the
  parameter \<open>sc\<close> (\<open>True\<close>: plain char is signed) and every result below holds for
  both choices.
\<close>

definition NEURAPP_CMD_CHARS :: nat where
  "NEURAPP_CMD_CHARS = 3"

definition cmd_help :: string where
  "cmd_help = ''HLP''"

definition cmd_ident :: string where
  "cmd_ident = ''IDQ''"

definition cmd_reset :: string where
  "cmd_reset = ''INI''"

definition cmd_echo :: string where
  "cmd_echo = ''ECH''"

definition cmd_debug_mem :: string where
  "cmd_debug_mem = ''ZZM''"

definition cmd_debug_evticks :: string where
  "cmd_debug_evticks = ''ZZE''"

datatype parse_state_t =
    PSTATE_PREAMBLE
  | PSTATE_OPCODE
  | PSTATE_FIRSTGAP
  | PSTATE_FIRSTARG
  | PSTATE_SECONDGAP
  | PSTATE_SECONDARG
  | PSTATE_TAIL
  | PSTATE_ERROR

record NeurApp_Parser =
  have_command :: bool
  this_cmdname :: string
  this_arg1 :: "16 word"
  this_arg2 :: "16 word"
  argsfound :: int

text \<open>The value of a plain \<open>char\<close> in a comparison, after integer promotion.\<close>

definition char_value :: "bool \<Rightarrow> char \<Rightarrow> int" where
  "char_value sc c =
     (if sc \<and> 128 \<le> (of_char c :: int) then of_char c - 256 else of_char c)"

text \<open>\<open>ResetState\<close> overwrites every field, so it is a constant of the model.\<close>

definition ResetState :: NeurApp_Parser where
  "ResetState =
     \<lparr> have_command = False,
       this_cmdname = replicate NEURAPP_CMD_CHARS (CHR 0x00),
       this_arg1 = 0,
       this_arg2 = 0,
       argsfound = 0 \<rparr>"

text \<open>
  The character classification at the head of the loop body: the three flags, the
  character after case folding (\<open>thischar -= 'a'; thischar += 'A'\<close>), and whether this
  character sets \<open>saw_question\<close>.
\<close>

record char_class =
  is_letter :: bool
  is_digit :: bool
  is_white :: bool
  folded :: char
  is_question :: bool

definition classify :: "bool \<Rightarrow> char \<Rightarrow> char_class" where
  "classify sc thischar =
     (let v = char_value sc thischar;
          none = \<lparr> is_letter = False, is_digit = False, is_white = False,
                   folded = thischar, is_question = False \<rparr>
      in if 97 \<le> v \<and> 122 \<ge> v
           then none \<lparr> is_letter := True,
                       folded := char_of ((of_char thischar :: nat) - 97 + 65) \<rparr>
         else if 65 \<le> v \<and> 90 \<ge> v then none \<lparr> is_letter := True \<rparr>
         else if 48 \<le> v \<and> 57 \<ge> v then none \<lparr> is_digit := True \<rparr>
         else if 32 \<ge> v then none \<lparr> is_white := True \<rparr>
         else if thischar = CHR ''?'' then none \<lparr> is_question := True \<rparr>
         else none)"

text \<open>The first \<open>switch\<close>: the state transition on the class of the character.\<close>

fun next_state :: "parse_state_t \<Rightarrow> char_class \<Rightarrow> parse_state_t" where
  "next_state PSTATE_PREAMBLE k =
     (if is_letter k then PSTATE_OPCODE
      else if \<not> is_white k then PSTATE_ERROR else PSTATE_PREAMBLE)"
| "next_state PSTATE_OPCODE k =
     (if is_white k then PSTATE_FIRSTGAP
      else if \<not> is_letter k then PSTATE_ERROR else PSTATE_OPCODE)"
| "next_state PSTATE_FIRSTGAP k =
     (if is_digit k then PSTATE_FIRSTARG
      else if \<not> is_white k then PSTATE_ERROR else PSTATE_FIRSTGAP)"
| "next_state PSTATE_FIRSTARG k =
     (if is_white k then PSTATE_SECONDGAP
      else if \<not> is_digit k then PSTATE_ERROR else PSTATE_FIRSTARG)"
| "next_state PSTATE_SECONDGAP k =
     (if is_digit k then PSTATE_SECONDARG
      else if \<not> is_white k then PSTATE_ERROR else PSTATE_SECONDGAP)"
| "next_state PSTATE_SECONDARG k =
     (if is_white k then PSTATE_TAIL
      else if \<not> is_digit k then PSTATE_ERROR else PSTATE_SECONDARG)"
| "next_state PSTATE_TAIL k =
     (if \<not> is_white k then PSTATE_ERROR else PSTATE_TAIL)"
| "next_state PSTATE_ERROR k = PSTATE_ERROR"

text \<open>
  The variables of \<open>ParseInputLine\<close> that live across loop iterations: the parser's
  fields and the locals \<open>state\<close>, \<open>opidx\<close> and \<open>saw_question\<close>.
\<close>

record scan_vars =
  parser :: NeurApp_Parser
  state :: parse_state_t
  opidx :: nat
  saw_question :: bool

text \<open>The second \<open>switch\<close>: the data update in the state just reached.\<close>

definition update_data :: "char \<Rightarrow> scan_vars \<Rightarrow> scan_vars" where
  "update_data thischar s =
     (case state s of
        PSTATE_OPCODE \<Rightarrow>
          (let p = (parser s) \<lparr> have_command := True \<rparr>
           in if opidx s < NEURAPP_CMD_CHARS
                then s \<lparr> parser := p \<lparr> this_cmdname := (this_cmdname p) [opidx s := thischar] \<rparr>,
                         opidx := opidx s + 1 \<rparr>
              else s \<lparr> parser := p, state := PSTATE_ERROR \<rparr>)
      | PSTATE_FIRSTARG \<Rightarrow>
          s \<lparr> parser := (parser s)
                 \<lparr> argsfound := 1,
                   this_arg1 := this_arg1 (parser s) * 10 + (of_char thischar - 48) \<rparr> \<rparr>
      | PSTATE_SECONDARG \<Rightarrow>
          s \<lparr> parser := (parser s)
                 \<lparr> argsfound := 2,
                   this_arg2 := this_arg2 (parser s) * 10 + (of_char thischar - 48) \<rparr> \<rparr>
      | _ \<Rightarrow> s)"

text \<open>One iteration of the scanning loop.\<close>

definition scan_char :: "bool \<Rightarrow> char \<Rightarrow> scan_vars \<Rightarrow> scan_vars" where
  "scan_char sc c s =
     (let k = classify sc c
      in update_data (folded k)
           (s \<lparr> state := next_state (state s) k,
                saw_question := (saw_question s \<or> is_question k) \<rparr>))"

text \<open>The loop \<open>for (rawidx = 0; 0 != (thischar = rawline[rawidx]); rawidx++)\<close>.\<close>

fun scan_line :: "bool \<Rightarrow> string \<Rightarrow> scan_vars \<Rightarrow> scan_vars" where
  "scan_line sc [] s = s"
| "scan_line sc (c # cs) s =
     (if c = CHR 0x00 then s else scan_line sc cs (scan_char sc c s))"

text \<open>
  \<open>ParseInputLine\<close> first calls \<open>ResetState\<close> and initialises its locals
  (\<open>scan_start\<close>), scans the line, and then applies the \<open>?\<close> override and the
  squashing of a failed parse. It returns \<open>was_ok\<close> and leaves the parser's fields as
  its second component.
\<close>

definition scan_start :: scan_vars where
  "scan_start =
     \<lparr> parser = ResetState, state = PSTATE_PREAMBLE, opidx = 0, saw_question = False \<rparr>"

definition ParseInputLine :: "bool \<Rightarrow> string \<Rightarrow> bool \<times> NeurApp_Parser" where
  "ParseInputLine sc rawline =
     (let s = scan_line sc rawline scan_start;
          was_ok = (state s \<noteq> PSTATE_ERROR);
          (was_ok, p) =
             (if saw_question s
                then (True, ResetState \<lparr> have_command := True, this_cmdname := cmd_help \<rparr>)
              else (was_ok, parser s))
      in (was_ok, if \<not> was_ok then ResetState else p))"

text \<open>The characters of a line that the scan reads: those before the first NUL.\<close>

definition c_string :: "string \<Rightarrow> string" where
  "c_string rawline = takeWhile (\<lambda>c. c \<noteq> CHR 0x00) rawline"

text \<open>
  Vocabulary for statements about lines: a blank is a character the scan reads and
  classifies as white space, and \<open>decimal\<close> is the number a digit string writes.
\<close>

definition blank :: "bool \<Rightarrow> char \<Rightarrow> bool" where
  "blank sc c = (c \<noteq> CHR 0x00 \<and> is_white (classify sc c))"

definition decimal_from :: "nat \<Rightarrow> string \<Rightarrow> nat" where
  "decimal_from a ds = foldl (\<lambda>a c. 10 * a + (of_char c - 48)) a ds"

definition decimal :: "string \<Rightarrow> nat" where
  "decimal ds = decimal_from 0 ds"

text \<open>
  For the proofs: the state a white-space character leads to, and the part of the scan
  variables that the claims about arguments read.
\<close>

fun after_blank :: "parse_state_t \<Rightarrow> parse_state_t" where
  "after_blank PSTATE_PREAMBLE = PSTATE_PREAMBLE"
| "after_blank PSTATE_OPCODE = PSTATE_FIRSTGAP"
| "after_blank PSTATE_FIRSTGAP = PSTATE_FIRSTGAP"
| "after_blank PSTATE_FIRSTARG = PSTATE_SECONDGAP"
| "after_blank PSTATE_SECONDGAP = PSTATE_SECONDGAP"
| "after_blank PSTATE_SECONDARG = PSTATE_TAIL"
| "after_blank PSTATE_TAIL = PSTATE_TAIL"
| "after_blank PSTATE_ERROR = PSTATE_ERROR"

definition args_of :: "scan_vars \<Rightarrow> 16 word \<times> 16 word \<times> int \<times> bool" where
  "args_of s =
     (this_arg1 (parser s), this_arg2 (parser s), argsfound (parser s), saw_question s)"

section \<open>Serial line receive buffer (neuravr-uart)\<close>

text \<open>
  The receive buffer is one array of \<open>UART_LINE_COUNT\<close> slots of \<open>UART_LINE_SIZE\<close>
  characters each (sizes of the ATmega328P header). The array is modelled as a store, a
  function from the index to the character held there. The \<open>int\<close> cursors are modelled
  as natural numbers: the code only ever increments them under a guard and decrements
  \<open>rowcount\<close> when it is positive, and the invariant below bounds them by 64, so neither
  the 16-bit range nor zero is ever crossed. The function-local \<open>static bool saw_cr\<close> is
  a field of the state.
\<close>

definition UART_LINE_COUNT :: nat where
  "UART_LINE_COUNT = 8"

definition UART_LINE_BITS :: nat where
  "UART_LINE_BITS = 6"

definition UART_LINE_SIZE :: nat where
  "UART_LINE_SIZE = push_bit UART_LINE_BITS 1"

definition NUL :: char where
  "NUL = CHR 0x00"

definition CR :: char where
  "CR = CHR 0x0D"

definition LF :: char where
  "LF = CHR 0x0A"

record uart_state =
  UART_recvlines :: "nat \<Rightarrow> char"
  rowcount :: nat
  oldestrow :: nat
  newestrow :: nat
  recvcharptr :: nat
  uart_filter_empty_lines :: bool
  saw_cr :: bool

text \<open>
  The state at program start: globals are zero-initialised and \<open>saw_cr\<close> starts
  \<open>false\<close>.
\<close>

definition uart_boot :: uart_state where
  "uart_boot =
     \<lparr> UART_recvlines = (\<lambda>_. NUL), rowcount = 0, oldestrow = 0, newestrow = 0,
       recvcharptr = 0, uart_filter_empty_lines = False, saw_cr = False \<rparr>"

text \<open>
  \<open>UART_InitBuffers_ISR\<close>, receive side: the loop writes a terminator at the start of
  every slot, then the cursors and the filter flag are reset. \<open>saw_cr\<close> is not touched.
\<close>

definition UART_InitBuffers_ISR :: "uart_state \<Rightarrow> uart_state" where
  "UART_InitBuffers_ISR s =
     s \<lparr> UART_recvlines :=
           fold (\<lambda>row m. m (push_bit UART_LINE_BITS row := NUL)) [0..<UART_LINE_COUNT]
             (UART_recvlines s),
         rowcount := 0, oldestrow := 0, newestrow := 0, recvcharptr := 0,
         uart_filter_empty_lines := False \<rparr>"

text \<open>
  \<open>UART_HandleRecvChar_ISR\<close>. Its two branches that write to the buffer are given
  names: \<open>end_of_line\<close> is the branch "we either have a non-empty line, or want to keep
  empties", and \<open>add_char\<close> is the branch "add this character to the line".
\<close>

definition end_of_line :: "uart_state \<Rightarrow> uart_state" where
  "end_of_line s =
     (let ptr = (if recvcharptr s \<ge> UART_LINE_SIZE then UART_LINE_SIZE - 1
                 else recvcharptr s);
          m = (UART_recvlines s) (push_bit UART_LINE_BITS (newestrow s) + ptr := NUL);
          advance = (rowcount s < UART_LINE_COUNT - 1);
          new = (if advance then (newestrow s + 1) AND (UART_LINE_COUNT - 1)
                 else newestrow s);
          cnt = (if advance then rowcount s + 1 else rowcount s)
      in s \<lparr> UART_recvlines := m (push_bit UART_LINE_BITS new := NUL),
              newestrow := new, rowcount := cnt, recvcharptr := 0 \<rparr>)"

definition add_char :: "char \<Rightarrow> uart_state \<Rightarrow> uart_state" where
  "add_char recvchar s =
     (if recvcharptr s < UART_LINE_SIZE
        then s \<lparr> UART_recvlines :=
                   (UART_recvlines s)
                     (push_bit UART_LINE_BITS (newestrow s) + recvcharptr s := recvchar),
                 recvcharptr := recvcharptr s + 1 \<rparr>
      else s)"

definition UART_HandleRecvChar_ISR :: "char \<Rightarrow> uart_state \<Rightarrow> uart_state" where
  "UART_HandleRecvChar_ISR recvchar s =
     (let s' =
        (if saw_cr s \<and> LF = recvchar then s
         else if LF = recvchar \<or> CR = recvchar then
           (if uart_filter_empty_lines s \<and> 0 = recvcharptr s then s
            else end_of_line s)
         else add_char recvchar s)
      in s' \<lparr> saw_cr := (CR = recvchar) \<rparr>)"

text \<open>
  \<open>UART_GetNextLine\<close> returns a pointer into the array, here the offset of the oldest
  slot, or \<open>NULL\<close>; \<open>UART_DoneWithLine\<close> releases the oldest line;
  \<open>UART_SetLineFiltering\<close> sets the flag.
\<close>

definition UART_GetNextLine :: "uart_state \<Rightarrow> nat option" where
  "UART_GetNextLine s =
     (if 0 < rowcount s then Some (push_bit UART_LINE_BITS (oldestrow s)) else None)"

definition UART_DoneWithLine :: "uart_state \<Rightarrow> uart_state" where
  "UART_DoneWithLine s =
     (if 0 < rowcount s
        then s \<lparr> oldestrow := (oldestrow s + 1) AND (UART_LINE_COUNT - 1),
                 rowcount := rowcount s - 1 \<rparr>
      else s)"

definition UART_SetLineFiltering :: "bool \<Rightarrow> uart_state \<Rightarrow> uart_state" where
  "UART_SetLineFiltering new_state s = s \<lparr> uart_filter_empty_lines := new_state \<rparr>"

text \<open>
  What happens to the receive side over time: characters arrive from the interrupt
  handler, and the main loop releases lines and may switch the filter.
\<close>

datatype uart_event = Recv char | Done | Filter bool

fun uart_step :: "uart_state \<Rightarrow> uart_event \<Rightarrow> uart_state" where
  "uart_step s (Recv c) = UART_HandleRecvChar_ISR c s"
| "uart_step s Done = UART_DoneWithLine s"
| "uart_step s (Filter b) = UART_SetLineFiltering b s"

definition uart_run :: "uart_event list \<Rightarrow> uart_state \<Rightarrow> uart_state" where
  "uart_run evs s = foldl uart_step s evs"

definition uart_feed :: "string \<Rightarrow> uart_state \<Rightarrow> uart_state" where
  "uart_feed cs s = uart_run (map Recv cs) s"

text \<open>
  Reading the buffer: the rows that hold complete unread lines, oldest first; whether a
  slot has a terminator within its capacity; and the C string a slot holds.
\<close>

definition complete_rows :: "uart_state \<Rightarrow> nat list" where
  "complete_rows s =
     map (\<lambda>k. (oldestrow s + k) AND (UART_LINE_COUNT - 1)) [0..<rowcount s]"

definition terminated :: "uart_state \<Rightarrow> nat \<Rightarrow> bool" where
  "terminated s row =
     (\<exists>i\<in>{0..<UART_LINE_SIZE}. UART_recvlines s (push_bit UART_LINE_BITS row + i) = NUL)"

definition slot_text :: "uart_state \<Rightarrow> nat \<Rightarrow> string" where
  "slot_text s row =
     takeWhile (\<lambda>c. c \<noteq> NUL)
       (map (\<lambda>i. UART_recvlines s (push_bit UART_LINE_BITS row + i)) [0..<UART_LINE_SIZE])"

text \<open>The invariant of the receive side.\<close>

definition uart_inv :: "uart_state \<Rightarrow> bool" where
  "uart_inv s =
     (rowcount s \<le> UART_LINE_COUNT - 1
      \<and> oldestrow s < UART_LINE_COUNT
      \<and> newestrow s = (oldestrow s + rowcount s) mod UART_LINE_COUNT
      \<and> recvcharptr s \<le> UART_LINE_SIZE
      \<and> (\<forall>row\<in>set (complete_rows s). terminated s row))"

text \<open>
  What an acted-on terminator does when the buffer has room, read off the source: the
  count of complete lines grows by one, the read cursor stays, the write cursor moves to
  the next slot (a different one), the character cursor returns to the start, a
  terminator is written at the character cursor of the old slot (clamped to its last
  cell), so that the old slot holds the characters received before it, and the new slot
  holds the empty string.
\<close>

definition line_completed :: "uart_state \<Rightarrow> uart_state \<Rightarrow> bool" where
  "line_completed s t =
     (rowcount t = rowcount s + 1
      \<and> oldestrow t = oldestrow s
      \<and> newestrow t = (newestrow s + 1) AND (UART_LINE_COUNT - 1)
      \<and> recvcharptr t = 0
      \<and> uart_filter_empty_lines t = uart_filter_empty_lines s
      \<and> UART_recvlines t
           (push_bit UART_LINE_BITS (newestrow s) + min (recvcharptr s) (UART_LINE_SIZE - 1)) = NUL
      \<and> slot_text t (newestrow s) =
           takeWhile (\<lambda>c. c \<noteq> NUL)
             (map (\<lambda>i. UART_recvlines s (push_bit UART_LINE_BITS (newestrow s) + i))
                [0..<min (recvcharptr s) (UART_LINE_SIZE - 1)])
      \<and> newestrow t \<noteq> newestrow s
      \<and> slot_text t (newestrow t) = [])"

text \<open>Example states: a line in progress, one complete line, and filtering switched on.\<close>

definition example_partial :: uart_state where
  "example_partial = uart_feed ''ab'' uart_boot"

definition example_one_line :: uart_state where
  "example_one_line = uart_feed (''ab'' @ [CR]) uart_boot"

definition example_filtering :: uart_state where
  "example_filtering = UART_SetLineFiltering True uart_boot"
section \<open>Analog conversion scheduler (neuravr-adc)\<close>

text \<open>
  The three per-channel arrays are modelled as functions from the channel index; the
  loops only touch the indices below \<open>ADC_CHANNEL_COUNT\<close> (the ATmega328P value). The
  loop counters are \<open>uint8_t\<close> and never exceed the channel count, so they are natural
  numbers here. The hardware is outside the model: \<open>ADC_IsADCBusy\<close> and
  \<open>ADC_GetConversionResult\<close> are inputs of the polling step, and every conversion that
  \<open>ADC_ReadFromChannel\<close> starts is appended to the log \<open>ADC_started\<close>.
\<close>

definition ADC_CHANNEL_COUNT :: nat where
  "ADC_CHANNEL_COUNT = 6"

record adc_state =
  ADC_idle :: bool
  ADC_needs_conversion :: "nat \<Rightarrow> bool"
  ADC_data_ready :: "nat \<Rightarrow> bool"
  ADC_data :: "nat \<Rightarrow> 16 word"
  ADC_started :: "nat list"

definition ADC_ReadFromChannel :: "nat \<Rightarrow> adc_state \<Rightarrow> adc_state" where
  "ADC_ReadFromChannel channel_id s =
     (if channel_id < ADC_CHANNEL_COUNT
        then s \<lparr> ADC_started := ADC_started s @ [channel_id] \<rparr>
      else s)"

definition reinit_body :: "nat \<Rightarrow> adc_state \<Rightarrow> adc_state" where
  "reinit_body cidx s =
     s \<lparr> ADC_idle := True,
         ADC_needs_conversion := (ADC_needs_conversion s) (cidx := False),
         ADC_data_ready := (ADC_data_ready s) (cidx := False),
         ADC_data := (ADC_data s) (cidx := 0) \<rparr>"

definition ADC_ReInitBuffer :: "adc_state \<Rightarrow> adc_state" where
  "ADC_ReInitBuffer s = fold reinit_body [0..<ADC_CHANNEL_COUNT] s"

text \<open>
  \<open>ADC_HousekeepingPoll\<close>: the loop body works on the state and the locals \<open>count\<close>
  and \<open>next_channel\<close>; \<open>result\<close> is what \<open>ADC_GetConversionResult\<close> returns, and
  \<open>store_result\<close> is the branch \<open>1 == count\<close>.
\<close>

definition store_result :: "16 word \<Rightarrow> nat \<Rightarrow> adc_state \<Rightarrow> adc_state" where
  "store_result result cidx s =
     s \<lparr> ADC_needs_conversion := (ADC_needs_conversion s) (cidx := False),
         ADC_data_ready := (ADC_data_ready s) (cidx := True),
         ADC_data := (ADC_data s) (cidx := result) \<rparr>"

definition poll_body ::
  "16 word \<Rightarrow> nat \<Rightarrow> adc_state \<times> nat \<times> nat \<Rightarrow> adc_state \<times> nat \<times> nat" where
  "poll_body result cidx v =
     (case v of (s, count, next_channel) \<Rightarrow>
        if ADC_needs_conversion s cidx then
          (if count + 1 = 1 then (store_result result cidx s, count + 1, next_channel)
           else if count + 1 = 2 then (s, count + 1, cidx)
           else (s, count + 1, next_channel))
        else (s, count, next_channel))"

definition ADC_HousekeepingPoll :: "bool \<Rightarrow> 16 word \<Rightarrow> adc_state \<Rightarrow> adc_state" where
  "ADC_HousekeepingPoll busy result s =
     (if \<not> ADC_idle s \<and> \<not> busy then
        (case fold (poll_body result) [0..<ADC_CHANNEL_COUNT] (s, 0, 0) of
           (s', count, next_channel) \<Rightarrow>
             if 1 \<ge> count then s' \<lparr> ADC_idle := True \<rparr>
             else ADC_ReadFromChannel next_channel s')
      else s)"

text \<open>
  \<open>ADC_StartConversion\<close>: the loop body works on the state and the locals
  \<open>need_first\<close> and \<open>first_channel\<close>. The mask is a \<open>uint8_t\<close>.
\<close>

definition start_body ::
  "8 word \<Rightarrow> nat \<Rightarrow> adc_state \<times> bool \<times> nat \<Rightarrow> adc_state \<times> bool \<times> nat" where
  "start_body channel_mask cidx v =
     (case v of (s, need_first, first_channel) \<Rightarrow>
        if channel_mask AND push_bit cidx 1 \<noteq> 0 then
          (s \<lparr> ADC_needs_conversion := (ADC_needs_conversion s) (cidx := True) \<rparr>,
           False, if need_first then cidx else first_channel)
        else (s, need_first, first_channel))"

definition ADC_StartConversion :: "8 word \<Rightarrow> adc_state \<Rightarrow> adc_state" where
  "ADC_StartConversion channel_mask s =
     (if ADC_idle s then
        (case fold (start_body channel_mask) [0..<ADC_CHANNEL_COUNT]
                (ADC_ReInitBuffer s, True, 0) of
           (s', need_first, first_channel) \<Rightarrow>
             if \<not> need_first
               then ADC_ReadFromChannel first_channel (s' \<lparr> ADC_idle := False \<rparr>)
             else s')
      else s)"

text \<open>
  \<open>ADC_ReadPendingSample\<close>: the result is \<open>Some (data, channel_id)\<close> when the function
  returns \<open>true\<close>, and \<open>None\<close> when it returns \<open>false\<close> and leaves its reference
  parameters alone. The loop condition \<open>!found\<close> is the guard of the body.
\<close>

definition read_body ::
  "nat \<Rightarrow> adc_state \<times> (16 word \<times> nat) option \<Rightarrow> adc_state \<times> (16 word \<times> nat) option" where
  "read_body cidx v =
     (case v of (s, found) \<Rightarrow>
        if found = None \<and> ADC_data_ready s cidx
          then (s \<lparr> ADC_data_ready := (ADC_data_ready s) (cidx := False) \<rparr>,
                Some (ADC_data s cidx, cidx))
        else (s, found))"

definition ADC_ReadPendingSample :: "adc_state \<Rightarrow> adc_state \<times> (16 word \<times> nat) option" where
  "ADC_ReadPendingSample s =
     (if ADC_idle s then fold read_body [0..<ADC_CHANNEL_COUNT] (s, None) else (s, None))"

text \<open>
  Running the scheduler: one poll per hardware result, each with the hardware reporting
  that the conversion is complete; and a number of successive reads.
\<close>

fun adc_polls :: "16 word list \<Rightarrow> adc_state \<Rightarrow> adc_state" where
  "adc_polls [] s = s"
| "adc_polls (r # rs) s = adc_polls rs (ADC_HousekeepingPoll False r s)"

fun adc_reads :: "nat \<Rightarrow> adc_state \<Rightarrow> (16 word \<times> nat) option list" where
  "adc_reads 0 s = []"
| "adc_reads (Suc n) s =
     (case ADC_ReadPendingSample s of (s', r) \<Rightarrow> r # adc_reads n s')"

text \<open>The channels a mask requests, in ascending order.\<close>

definition requested :: "8 word \<Rightarrow> nat list" where
  "requested channel_mask = filter (bit channel_mask) [0..<ADC_CHANNEL_COUNT]"

text \<open>The state at program start.\<close>

definition adc_boot :: adc_state where
  "adc_boot =
     \<lparr> ADC_idle = True, ADC_needs_conversion = (\<lambda>_. False), ADC_data_ready = (\<lambda>_. False),
       ADC_data = (\<lambda>_. 0), ADC_started = [] \<rparr>"

text \<open>
  Where the scheduler stands after \<open>k\<close> polls of an accepted request for the channels
  \<open>chans\<close>, with hardware results \<open>rs\<close> and the conversions \<open>hw\<close> started before:
  the first \<open>k\<close> channels hold their results and are ready, the others still need
  conversion, one conversion beyond the \<open>k\<close> completed ones has been started, and the
  scheduler is idle exactly when nothing is left.
\<close>

definition adc_progress ::
  "nat list \<Rightarrow> nat list \<Rightarrow> nat \<Rightarrow> 16 word list \<Rightarrow> adc_state \<Rightarrow> bool" where
  "adc_progress hw chans k rs t =
     (k \<le> length chans \<and> length rs = k
      \<and> ADC_idle t = (k = length chans)
      \<and> (\<forall>c<ADC_CHANNEL_COUNT. ADC_needs_conversion t c = (c \<in> set (drop k chans)))
      \<and> (\<forall>c<ADC_CHANNEL_COUNT. ADC_data_ready t c = (c \<in> set (take k chans)))
      \<and> (\<forall>i<k. ADC_data t (chans ! i) = rs ! i)
      \<and> ADC_started t = hw @ take (k + 1) chans)"

text \<open>A request followed by one poll per hardware result.\<close>

definition adc_run :: "8 word \<Rightarrow> 16 word list \<Rightarrow> adc_state \<Rightarrow> adc_state" where
  "adc_run channel_mask rs s = adc_polls rs (ADC_StartConversion channel_mask s)"

section \<open>Atomic sections on the workstation (neuravr emulation layer)\<close>

text \<open>
  On the workstation \<open>ATOMIC_BLOCK(X)\<close> expands to a loop that calls
  \<open>ATOMIC_GetCli(X)\<close> on entry and \<open>ATOMIC_ReleaseCli\<close> on exit. "Interrupts disabled"
  is: the calling thread holds \<open>atomic_waiting_mutex\<close>. The model follows one thread
  \<open>tid\<close> through its calls. A \<open>std::mutex\<close> is either free or held by a thread;
  locking a held mutex does not return in this sequential setting, and unlocking a
  mutex the caller does not hold is undefined, so both are the result \<open>None\<close>.
  \<open>atomic_access_mutex\<close> is taken and released inside each call around the bookkeeping
  and is not part of the state.
\<close>

datatype atomic_state_t = ATOMIC_DONE | ATOMIC_WANT_INTERRUPTS | ATOMIC_WANT_NO_INTERRUPTS

definition ATOMIC_RESTORESTATE :: bool where
  "ATOMIC_RESTORESTATE = True"

definition ATOMIC_FORCEON :: bool where
  "ATOMIC_FORCEON = False"

record atomic_vars =
  atomic_owner_count :: int
  atomic_owner_id :: nat
  atomic_waiting_mutex :: "nat option"

definition mutex_lock :: "nat \<Rightarrow> atomic_vars \<Rightarrow> atomic_vars option" where
  "mutex_lock tid s =
     (case atomic_waiting_mutex s of
        None \<Rightarrow> Some (s \<lparr> atomic_waiting_mutex := Some tid \<rparr>)
      | Some holder \<Rightarrow> None)"

definition mutex_unlock :: "nat \<Rightarrow> atomic_vars \<Rightarrow> atomic_vars option" where
  "mutex_unlock tid s =
     (if atomic_waiting_mutex s = Some tid
        then Some (s \<lparr> atomic_waiting_mutex := None \<rparr>)
      else None)"

definition ATOMIC_GetCli ::
  "nat \<Rightarrow> bool \<Rightarrow> atomic_vars \<Rightarrow> (atomic_vars \<times> atomic_state_t) option" where
  "ATOMIC_GetCli tid save_old s =
     (let old_count = atomic_owner_count s;
          old_id = atomic_owner_id s
      in case (if 0 = old_count \<or> \<not> (tid = old_id) then mutex_lock tid s else Some s) of
           None \<Rightarrow> None
         | Some s1 \<Rightarrow>
             (let old_count = atomic_owner_count s1;
                  s2 = s1 \<lparr> atomic_owner_count := atomic_owner_count s1 + 1,
                            atomic_owner_id := tid \<rparr>
              in Some (s2, if save_old \<and> 0 < old_count then ATOMIC_WANT_NO_INTERRUPTS
                           else ATOMIC_WANT_INTERRUPTS)))"

definition ATOMIC_ReleaseCli ::
  "nat \<Rightarrow> atomic_state_t \<Rightarrow> atomic_vars \<Rightarrow> (atomic_vars \<times> atomic_state_t) option" where
  "ATOMIC_ReleaseCli tid desired_state s =
     (let s1 = s \<lparr> atomic_owner_count := atomic_owner_count s - 1 \<rparr>;
          old_count = atomic_owner_count s1
      in case (if 0 = old_count then mutex_unlock tid s1 else Some s1) of
           None \<Rightarrow> None
         | Some s2 \<Rightarrow> Some (s2, ATOMIC_DONE))"

text \<open>
  A thread's sequence of block entries and exits. Each \<open>ATOMIC_BLOCK\<close> keeps the value
  \<open>ATOMIC_GetCli\<close> returned in its loop variable and hands it to \<open>ATOMIC_ReleaseCli\<close>;
  the run keeps these values on a stack, innermost block first.
\<close>

datatype atomic_op = Enter bool | Exit

fun atomic_run ::
  "nat \<Rightarrow> atomic_op list \<Rightarrow> atomic_vars \<times> atomic_state_t list
     \<Rightarrow> (atomic_vars \<times> atomic_state_t list) option" where
  "atomic_run tid [] v = Some v"
| "atomic_run tid (Enter save_old # ops) (s, idxs) =
     (case ATOMIC_GetCli tid save_old s of
        None \<Rightarrow> None
      | Some (s', idx) \<Rightarrow> atomic_run tid ops (s', idx # idxs))"
| "atomic_run tid (Exit # ops) (s, idxs) =
     (case idxs of
        [] \<Rightarrow> None
      | idx # rest \<Rightarrow>
          (case ATOMIC_ReleaseCli tid idx s of
             None \<Rightarrow> None
           | Some (s', _) \<Rightarrow> atomic_run tid ops (s', rest)))"

text \<open>
  The nesting depth after a sequence that starts at depth \<open>d\<close>; \<open>None\<close> when an exit
  has no entry to match. A sequence is properly nested when it starts and ends at depth
  0.
\<close>

fun nesting :: "nat \<Rightarrow> atomic_op list \<Rightarrow> nat option" where
  "nesting d [] = Some d"
| "nesting d (Enter save_old # ops) = nesting (d + 1) ops"
| "nesting d (Exit # ops) = (if d = 0 then None else nesting (d - 1) ops)"

definition properly_nested :: "atomic_op list \<Rightarrow> bool" where
  "properly_nested ops = (nesting 0 ops = Some 0)"

text \<open>
  The state a thread \<open>tid\<close> is in at nesting depth \<open>d\<close>: the count is \<open>d\<close>, and the
  thread holds the mutex exactly when \<open>d\<close> is positive.
\<close>

definition at_depth :: "nat \<Rightarrow> nat \<Rightarrow> atomic_vars \<times> atomic_state_t list \<Rightarrow> bool" where
  "at_depth tid d v =
     (case v of (s, idxs) \<Rightarrow>
        atomic_owner_count s = int d \<and> length idxs = d
        \<and> atomic_waiting_mutex s = (if 0 < d then Some tid else None)
        \<and> (0 < d \<longrightarrow> atomic_owner_id s = tid))"

section \<open>Application framework (neurapp-oo: NeurApp\_Base)\<close>

text \<open>
  An event handler is an object with virtual hooks; the registry holds pointers to
  handlers. A pointer is modelled as a number, with 0 for \<open>NULL\<close>. What a hook does is
  up to the application, so a call of a hook, like a message written to the serial
  line, is an effect: the functions below return the list of the calls they make, in
  order. The registry is an array closed by a row with a \<open>NULL\<close> handler, and a command
  list is an array closed by a row with a negative argument count; they are lists here,
  and the end of the list stands for the closing row when there is none.
\<close>

definition NULL :: nat where
  "NULL = 0"

record neurapp_cmd_list_row_t =
  name :: string
  opcode :: "8 word"
  argcount :: int

record neurapp_event_handler_row_t =
  handler :: nat
  cmdlist :: "neurapp_cmd_list_row_t list option"

datatype call =
    UserInitHardware
  | UserInitState
  | InitHardware nat
  | InitState nat
  | HandleCommand nat "8 word" "16 word" "16 word"
  | WaitForSendDone
  | EchoLine string
  | PrintShortHelp string
  | PrintHelp "nat list"
  | PrintIdentity
  | PrintDebugMem
  | PrintDebugTicks

definition NEURAPP_REPORT_QUEUE_LENGTH :: nat where
  "NEURAPP_REPORT_QUEUE_LENGTH = 4"

definition NEURAPP_REPORT_BUFFER_CHARS :: nat where
  "NEURAPP_REPORT_BUFFER_CHARS = 90"

text \<open>
  The fields of \<open>NeurApp_Base\<close> that the modelled functions use. The queue cursors are
  \<open>int\<close> in the source; they stay between 0 and the queue length (the invariant below),
  so they are natural numbers here. \<open>reportqueue\<close> maps a slot and an index to a
  character.
\<close>

record NeurApp_Base =
  event_lut :: "neurapp_event_handler_row_t list option"
  app_parser :: NeurApp_Parser
  echo_state :: bool
  report_read_ptr :: nat
  report_write_ptr :: nat
  report_count :: nat
  transmit_running :: bool
  reportqueue :: "nat \<Rightarrow> nat \<Rightarrow> char"

text \<open>
  The loop header \<open>for (hidx = 0; NULL != event_lut[hidx].handler; hidx++)\<close> visits the
  rows before the closing row; \<open>lut_rows\<close> is their number. \<open>first_of_run\<close> is the test
  \<open>(1 > hidx) || (event_lut[hidx].handler != event_lut[hidx-1].handler)\<close> that the
  loops with "special-case duplicates" apply.
\<close>

definition lut_rows :: "neurapp_event_handler_row_t list \<Rightarrow> nat" where
  "lut_rows lut = length (takeWhile (\<lambda>row. NULL \<noteq> handler row) lut)"

definition first_of_run :: "neurapp_event_handler_row_t list \<Rightarrow> nat \<Rightarrow> bool" where
  "first_of_run lut hidx = (1 > hidx \<or> handler (lut ! hidx) \<noteq> handler (lut ! (hidx - 1)))"

definition handlers_once :: "neurapp_event_handler_row_t list \<Rightarrow> nat list" where
  "handlers_once lut =
     map (\<lambda>hidx. handler (lut ! hidx)) (filter (first_of_run lut) [0..<lut_rows lut])"

definition handlers_every_row :: "neurapp_event_handler_row_t list \<Rightarrow> nat list" where
  "handlers_every_row lut = map (\<lambda>hidx. handler (lut ! hidx)) [0..<lut_rows lut]"

text \<open>
  \<open>ReInitState\<close>: reset the parser and the report queue, wait for the transmission in
  progress, call \<open>UserInitState\<close>, then walk the registry and call \<open>InitState\<close> for the
  handler of each row; this loop has no test for duplicates. (The debugging counters it
  also clears are not modelled.)
\<close>

definition ReInitState :: "NeurApp_Base \<Rightarrow> NeurApp_Base \<times> call list" where
  "ReInitState st =
     (st \<lparr> app_parser := ResetState,
           report_read_ptr := 0, report_write_ptr := 0, report_count := 0,
           transmit_running := False,
           reportqueue :=
             fold (\<lambda>hidx q. q (hidx := (q hidx) (0 := NUL))) [0..<NEURAPP_REPORT_QUEUE_LENGTH]
               (reportqueue st) \<rparr>,
      [WaitForSendDone, UserInitState]
        @ (case event_lut st of
             None \<Rightarrow> []
           | Some lut \<Rightarrow> map InitState (handlers_every_row lut)))"

text \<open>
  \<open>DoInitialSetup\<close>: store the registry, call \<open>UserInitHardware\<close>, call \<open>InitHardware\<close>
  once for each run of equal adjacent handlers, then \<open>ReInitState\<close>.
\<close>

definition DoInitialSetup ::
  "neurapp_event_handler_row_t list option \<Rightarrow> NeurApp_Base \<Rightarrow> NeurApp_Base \<times> call list" where
  "DoInitialSetup eventdefs st =
     (let st1 = st \<lparr> event_lut := eventdefs \<rparr>;
          hw = (case event_lut st1 of
                  None \<Rightarrow> []
                | Some lut \<Rightarrow> map InitHardware (handlers_once lut));
          (st2, calls) = ReInitState st1
      in (st2, [UserInitHardware] @ hw @ calls))"

text \<open>\<open>CommandMatch\<close> compares the \<open>NEURAPP_CMD_CHARS\<close> characters of two names.\<close>

definition CommandMatch :: "string \<Rightarrow> string \<Rightarrow> bool" where
  "CommandMatch first second =
     fold (\<lambda>cidx result. if first ! cidx \<noteq> second ! cidx then False else result)
       [0..<NEURAPP_CMD_CHARS] True"

text \<open>
  The dispatch loops of \<open>DoPolling\<close> for a command that is not built in. Both loops
  run while \<open>!found\<close>; their variables are \<open>found\<close>, \<open>bad_command\<close> and the calls made
  so far.
\<close>

fun cmdlist_loop ::
  "string \<Rightarrow> int \<Rightarrow> 16 word \<Rightarrow> 16 word \<Rightarrow> nat \<Rightarrow> neurapp_cmd_list_row_t list
     \<Rightarrow> bool \<times> bool \<times> call list \<Rightarrow> bool \<times> bool \<times> call list" where
  "cmdlist_loop thiscommand argcnt arg1 arg2 h [] v = v"
| "cmdlist_loop thiscommand argcnt arg1 arg2 h (e # es) (found, bad_command, calls) =
     (if \<not> found \<and> 0 \<le> argcount e then
        cmdlist_loop thiscommand argcnt arg1 arg2 h es
          (if CommandMatch thiscommand (name e) then
             (if argcnt = argcount e
                then (True, bad_command, calls @ [HandleCommand h (opcode e) arg1 arg2])
              else (True, True, calls))
           else (found, bad_command, calls))
      else (found, bad_command, calls))"

fun rows_loop ::
  "string \<Rightarrow> int \<Rightarrow> 16 word \<Rightarrow> 16 word \<Rightarrow> neurapp_event_handler_row_t list
     \<Rightarrow> bool \<times> bool \<times> call list \<Rightarrow> bool \<times> bool \<times> call list" where
  "rows_loop thiscommand argcnt arg1 arg2 [] v = v"
| "rows_loop thiscommand argcnt arg1 arg2 (row # rows) (found, bad_command, calls) =
     (if \<not> found \<and> NULL \<noteq> handler row then
        rows_loop thiscommand argcnt arg1 arg2 rows
          (case cmdlist row of
             None \<Rightarrow> (found, bad_command, calls)
           | Some cmds \<Rightarrow>
               cmdlist_loop thiscommand argcnt arg1 arg2 (handler row) cmds
                 (found, bad_command, calls))
      else (found, bad_command, calls))"

definition dispatch_command ::
  "neurapp_event_handler_row_t list \<Rightarrow> string \<Rightarrow> int \<Rightarrow> 16 word \<Rightarrow> 16 word
     \<Rightarrow> bool \<times> call list" where
  "dispatch_command lut thiscommand argcnt arg1 arg2 =
     (case rows_loop thiscommand argcnt arg1 arg2 lut (False, False, []) of
        (found, bad_command, calls) \<Rightarrow> (if \<not> found then True else bad_command, calls))"

text \<open>
  The body of \<open>if (parser.WasNewCommand(...))\<close> in \<open>DoPolling\<close>: the built-in commands,
  then the dispatch, then the short help when \<open>bad_command\<close> is set. The texts written
  for the built-in commands are each one call.
\<close>

definition run_command ::
  "neurapp_event_handler_row_t list \<Rightarrow> string \<Rightarrow> string \<Rightarrow> int \<Rightarrow> 16 word \<Rightarrow> 16 word
     \<Rightarrow> NeurApp_Base \<Rightarrow> NeurApp_Base \<times> call list" where
  "run_command lut thisline thiscommand argcnt arg1 arg2 st =
     (case
        (if CommandMatch thiscommand cmd_help then (st, False, [PrintHelp (handlers_once lut)])
         else if CommandMatch thiscommand cmd_ident then (st, False, [PrintIdentity])
         else if CommandMatch thiscommand cmd_reset then
           (case ReInitState st of (st', calls) \<Rightarrow> (st', False, calls))
         else if CommandMatch thiscommand cmd_echo then
           (if 1 = argcnt then (st \<lparr> echo_state := (arg1 \<noteq> 0) \<rparr>, False, [])
            else (st, True, []))
         else if CommandMatch thiscommand cmd_debug_mem then (st, False, [PrintDebugMem])
         else if CommandMatch thiscommand cmd_debug_evticks then (st, False, [PrintDebugTicks])
         else
           (case dispatch_command lut thiscommand argcnt arg1 arg2 of
              (bad_command, calls) \<Rightarrow> (st, bad_command, calls)))
      of (st', bad_command, calls) \<Rightarrow>
        (st', if bad_command then calls @ [PrintShortHelp thisline] else calls))"

text \<open>
  The first part of \<open>DoPolling\<close>, for a line that \<open>UART_GetNextLine\<close> returned: echo,
  parse, \<open>WasNewCommand\<close> (which clears \<open>have_command\<close>), run the command. The caller
  then releases the line.
\<close>

definition process_line ::
  "bool \<Rightarrow> neurapp_event_handler_row_t list \<Rightarrow> string \<Rightarrow> NeurApp_Base
     \<Rightarrow> NeurApp_Base \<times> call list" where
  "process_line sc lut thisline st =
     (let echo = (if echo_state st then [EchoLine thisline] else []);
          (ok, p) = ParseInputLine sc thisline
      in if ok then
           (if have_command p then
              (case run_command lut thisline (this_cmdname p) (argsfound p) (this_arg1 p)
                      (this_arg2 p) (st \<lparr> app_parser := p \<lparr> have_command := False \<rparr> \<rparr>) of
                 (st', calls) \<Rightarrow> (st', echo @ calls))
            else (st \<lparr> app_parser := p \<rparr>, echo))
         else (st \<lparr> app_parser := p \<rparr>, echo @ [PrintShortHelp thisline]))"

text \<open>
  The first matching entry, as the specification describes the search: the entries of
  the rows before the closing row, each up to its list's closing entry, in order, and
  the first of them whose name matches.
\<close>

definition active_entries ::
  "neurapp_event_handler_row_t list \<Rightarrow> (nat \<times> neurapp_cmd_list_row_t) list" where
  "active_entries lut =
     concat (map (\<lambda>row. case cmdlist row of
                          None \<Rightarrow> []
                        | Some cmds \<Rightarrow>
                            map (Pair (handler row)) (takeWhile (\<lambda>e. 0 \<le> argcount e) cmds))
                 (takeWhile (\<lambda>row. NULL \<noteq> handler row) lut))"

definition first_match ::
  "neurapp_event_handler_row_t list \<Rightarrow> string \<Rightarrow> (nat \<times> neurapp_cmd_list_row_t) option" where
  "first_match lut thiscommand =
     find (\<lambda>(h, e). CommandMatch thiscommand (name e)) (active_entries lut)"

definition builtin_command :: "string \<Rightarrow> bool" where
  "builtin_command thiscommand =
     (CommandMatch thiscommand cmd_help \<or> CommandMatch thiscommand cmd_ident
      \<or> CommandMatch thiscommand cmd_reset \<or> CommandMatch thiscommand cmd_echo
      \<or> CommandMatch thiscommand cmd_debug_mem \<or> CommandMatch thiscommand cmd_debug_evticks)"

text \<open>
  An example registry: handler 1 is registered in two adjacent rows with two command
  lists, handler 2 follows.
\<close>

definition example_lut :: "neurapp_event_handler_row_t list" where
  "example_lut =
     [\<lparr> handler = 1,
        cmdlist = Some [\<lparr> name = ''AAA'', opcode = 1, argcount = 0 \<rparr>,
                        \<lparr> name = ''BBB'', opcode = 2, argcount = 1 \<rparr>,
                        \<lparr> name = [NUL, NUL, NUL], opcode = 0, argcount = - 1 \<rparr>] \<rparr>,
      \<lparr> handler = 1,
        cmdlist = Some [\<lparr> name = ''CCC'', opcode = 3, argcount = 2 \<rparr>,
                        \<lparr> name = [NUL, NUL, NUL], opcode = 0, argcount = - 1 \<rparr>] \<rparr>,
      \<lparr> handler = 2,
        cmdlist = Some [\<lparr> name = ''BBB'', opcode = 9, argcount = 0 \<rparr>,
                        \<lparr> name = [NUL, NUL, NUL], opcode = 0, argcount = - 1 \<rparr>] \<rparr>,
      \<lparr> handler = NULL, cmdlist = None \<rparr>]"

definition example_app :: NeurApp_Base where
  "example_app =
     \<lparr> event_lut = Some example_lut, app_parser = ResetState, echo_state = False,
       report_read_ptr = 0, report_write_ptr = 0, report_count = 0,
       transmit_running = False, reportqueue = (\<lambda>slot idx. NUL) \<rparr>"

subsection \<open>The report queue\<close>

text \<open>
  The serial channel's transmit side, as far as report handling sees it:
  \<open>UART_transbuf\<close> is \<open>NULL\<close> or points at the message being sent; the interrupt
  handler clears it when the message is out. \<open>UART_QueueSend\<close> starts with
  \<open>UART_WaitForSendDone\<close>, a busy wait for that; within one pass of the main loop the
  model has no interrupt, so the call is \<open>None\<close> when it would have to wait.
\<close>

datatype message = ReportSlot nat | OtherText

definition UART_IsSendInProgress :: "message option \<Rightarrow> bool" where
  "UART_IsSendInProgress UART_transbuf = (None \<noteq> UART_transbuf)"

definition UART_QueueSend :: "message \<Rightarrow> message option \<Rightarrow> message option option" where
  "UART_QueueSend msg UART_transbuf =
     (if UART_IsSendInProgress UART_transbuf then None else Some (Some msg))"

text \<open>"First, send the next pending string if we can."\<close>

definition send_pending ::
  "NeurApp_Base \<times> message option \<Rightarrow> (NeurApp_Base \<times> message option) option" where
  "send_pending v =
     (case v of (st, UART_transbuf) \<Rightarrow>
        if 0 < report_count st then
          (if \<not> UART_IsSendInProgress UART_transbuf then
             (let st1 =
                (if transmit_running st
                   then st \<lparr> transmit_running := False,
                            report_count := report_count st - 1,
                            report_read_ptr :=
                              (if report_read_ptr st + 1 \<ge> NEURAPP_REPORT_QUEUE_LENGTH then 0
                               else report_read_ptr st + 1) \<rparr>
                 else st)
              in if 0 < report_count st1 then
                   (case UART_QueueSend (ReportSlot (report_read_ptr st1)) UART_transbuf of
                      None \<Rightarrow> None
                    | Some tx \<Rightarrow> Some (st1 \<lparr> transmit_running := True \<rparr>, tx))
                 else Some (st1, UART_transbuf))
           else Some (st, UART_transbuf))
        else Some (st, UART_transbuf))"

text \<open>
  "Second, queue new report strings." A handler's \<open>MakeReportString\<close> is a parameter
  \<open>mk\<close>: from the handler, the state \<open>w\<close> of the handlers and the buffer it is given, it
  yields its return value, the buffer as it leaves it, and the new state of the
  handlers. The \<open>while\<close> loop for one handler:
\<close>

function report_loop ::
  "(nat \<Rightarrow> 'w \<Rightarrow> (nat \<Rightarrow> char) \<Rightarrow> bool \<times> (nat \<Rightarrow> char) \<times> 'w) \<Rightarrow> nat
     \<Rightarrow> NeurApp_Base \<times> 'w \<Rightarrow> NeurApp_Base \<times> 'w" where
  "report_loop mk h (st, w) =
     (if report_count st < NEURAPP_REPORT_QUEUE_LENGTH then
        (case mk h w (reportqueue st (report_write_ptr st)) of
           (made, buffer, w') \<Rightarrow>
             if made then
               report_loop mk h
                 (st \<lparr> reportqueue :=
                         (reportqueue st)
                           (report_write_ptr st :=
                              buffer (NEURAPP_REPORT_BUFFER_CHARS - 1 := NUL)),
                       report_count := report_count st + 1,
                       report_write_ptr :=
                         (if report_write_ptr st + 1 \<ge> NEURAPP_REPORT_QUEUE_LENGTH then 0
                          else report_write_ptr st + 1) \<rparr>,
                  w')
             else (st \<lparr> reportqueue := (reportqueue st) (report_write_ptr st := buffer) \<rparr>, w'))
      else (st, w))"
  by pat_completeness auto
termination
  by (relation "measure (\<lambda>(mk, h, st, w). NEURAPP_REPORT_QUEUE_LENGTH - report_count st)") auto

definition queue_reports ::
  "(nat \<Rightarrow> 'w \<Rightarrow> (nat \<Rightarrow> char) \<Rightarrow> bool \<times> (nat \<Rightarrow> char) \<times> 'w)
     \<Rightarrow> neurapp_event_handler_row_t list \<Rightarrow> NeurApp_Base \<times> 'w \<Rightarrow> NeurApp_Base \<times> 'w" where
  "queue_reports mk lut v =
     fold (\<lambda>hidx v. if first_of_run lut hidx then report_loop mk (handler (lut ! hidx)) v else v)
       [0..<lut_rows lut] v"

text \<open>The report part of one pass of \<open>DoPolling\<close>.\<close>

definition report_handling ::
  "(nat \<Rightarrow> 'w \<Rightarrow> (nat \<Rightarrow> char) \<Rightarrow> bool \<times> (nat \<Rightarrow> char) \<times> 'w)
     \<Rightarrow> neurapp_event_handler_row_t list \<Rightarrow> NeurApp_Base \<times> message option \<times> 'w
     \<Rightarrow> (NeurApp_Base \<times> message option \<times> 'w) option" where
  "report_handling mk lut v =
     (case v of (st, UART_transbuf, w) \<Rightarrow>
        (case send_pending (st, UART_transbuf) of
           None \<Rightarrow> None
         | Some (st1, tx) \<Rightarrow>
             (case queue_reports mk lut (st1, w) of (st2, w') \<Rightarrow> Some (st2, tx, w'))))"

text \<open>
  The invariant of the queue: the count is at most the queue length, both cursors are
  inside the queue, the write cursor is the read cursor plus the count (cyclically),
  and every queued slot ends in a terminator. And what queueing may change: the read
  cursor and the transmit flag stay, the count does not shrink, and the slots queued
  before keep their contents.
\<close>

definition queued_slots :: "NeurApp_Base \<Rightarrow> nat list" where
  "queued_slots st =
     map (\<lambda>k. (report_read_ptr st + k) mod NEURAPP_REPORT_QUEUE_LENGTH) [0..<report_count st]"

definition queue_inv :: "NeurApp_Base \<Rightarrow> bool" where
  "queue_inv st =
     (report_count st \<le> NEURAPP_REPORT_QUEUE_LENGTH
      \<and> report_read_ptr st < NEURAPP_REPORT_QUEUE_LENGTH
      \<and> report_write_ptr st
          = (report_read_ptr st + report_count st) mod NEURAPP_REPORT_QUEUE_LENGTH
      \<and> (\<forall>slot\<in>set (queued_slots st).
            reportqueue st slot (NEURAPP_REPORT_BUFFER_CHARS - 1) = NUL))"

definition queue_grows :: "NeurApp_Base \<Rightarrow> NeurApp_Base \<Rightarrow> bool" where
  "queue_grows st st' =
     (report_read_ptr st' = report_read_ptr st
      \<and> transmit_running st' = transmit_running st
      \<and> report_count st \<le> report_count st'
      \<and> (\<forall>slot\<in>set (queued_slots st). reportqueue st' slot = reportqueue st slot))"

text \<open>
  An example generator: the handlers have \<open>w\<close> reports left; a call fills the whole
  buffer with \<open>x\<close>, terminator or not, and succeeds while a report is left. And a full
  queue whose oldest slot is being transmitted.
\<close>

definition example_generator ::
  "nat \<Rightarrow> nat \<Rightarrow> (nat \<Rightarrow> char) \<Rightarrow> bool \<times> (nat \<Rightarrow> char) \<times> nat" where
  "example_generator h w buffer = (0 < w, (\<lambda>idx. CHR ''x''), w - 1)"

definition example_full :: NeurApp_Base where
  "example_full =
     example_app \<lparr> report_count := NEURAPP_REPORT_QUEUE_LENGTH, transmit_running := True \<rparr>"

section \<open>Properties of the command parser\<close>

lemma replicate_CMD_CHARS: "replicate NEURAPP_CMD_CHARS x = [x, x, x]"
  by (simp add: NEURAPP_CMD_CHARS_def numeral_3_eq_3)

lemma is_question_classify: "is_question (classify sc c) = (c = CHR ''?'')"
  by (simp add: classify_def char_value_def Let_def)

lemma saw_question_update_data: "saw_question (update_data c s) = saw_question s"
  by (simp add: update_data_def Let_def split: parse_state_t.split)

lemma saw_question_scan_char:
  "saw_question (scan_char sc c s) = (saw_question s \<or> c = CHR ''?'')"
  by (simp add: scan_char_def Let_def saw_question_update_data is_question_classify)

lemma saw_question_scan_line:
  "saw_question (scan_line sc line s) = (saw_question s \<or> CHR ''?'' \<in> set (c_string line))"
  by (induction line arbitrary: s) (auto simp: c_string_def saw_question_scan_char)

lemma error_sticky_char:
  "state s = PSTATE_ERROR \<Longrightarrow> state (scan_char sc c s) = PSTATE_ERROR"
  by (simp add: scan_char_def update_data_def Let_def)

lemma error_sticky_line:
  "state s = PSTATE_ERROR \<Longrightarrow> state (scan_line sc line s) = PSTATE_ERROR"
  by (induction line arbitrary: s) (simp_all add: error_sticky_char)

lemma question_overrides:
  "CHR ''?'' \<in> set (c_string line) \<Longrightarrow>
   ParseInputLine sc line =
     (True, \<lparr> have_command = True, this_cmdname = ''HLP'', this_arg1 = 0, this_arg2 = 0,
              argsfound = 0 \<rparr>)"
  by (simp add: ParseInputLine_def Let_def saw_question_scan_line ResetState_def cmd_help_def
      scan_start_def)

lemma parse_ECH_1:
  "ParseInputLine sc ''ECH 1'' =
     (True, \<lparr> have_command = True, this_cmdname = ''ECH'', this_arg1 = 1, this_arg2 = 0,
              argsfound = 1 \<rparr>)"
  by (induct sc; code_simp)

lemma parse_ech_1_folded: "ParseInputLine sc ''ech 1'' = ParseInputLine sc ''ECH 1''"
  by (induct sc; code_simp)

lemma parse_ECH:
  "ParseInputLine sc ''ECH'' =
     (True, \<lparr> have_command = True, this_cmdname = ''ECH'', this_arg1 = 0, this_arg2 = 0,
              argsfound = 0 \<rparr>)"
  by (induct sc; code_simp)

lemma parse_three_args:
  "state (scan_line sc ''ech 1 2 3'' scan_start) = PSTATE_ERROR \<and>
   ParseInputLine sc ''ech 1 2 3'' = (False, ResetState)"
  by (induct sc; code_simp)

lemma parse_four_letters:
  "state (scan_line sc ''ABCD'' scan_start) = PSTATE_ERROR \<and>
   ParseInputLine sc ''ABCD'' = (False, ResetState)"
  by (induct sc; code_simp)

text \<open>
  Claim C5. \<open>ParseInputLine\<close> runs the eight-state machine with case folding:
  \<open>"ECH 1"\<close> parses to opcode \<open>ECH\<close> with one argument, 1, and \<open>"ech 1"\<close> parses to
  the same result; \<open>"ECH"\<close> alone parses with no argument; a line with a \<open>?\<close> anywhere
  before its terminator parses as \<open>HLP\<close> with no argument and is reported valid,
  whatever state the scan reached; \<open>"ech 1 2 3"\<close> and \<open>"ABCD"\<close> end in the error state,
  which no further character leaves, and are reported invalid with every field reset.
\<close>

theorem C5_parse_input_line:
  "ParseInputLine sc ''ECH 1'' =
     (True, \<lparr> have_command = True, this_cmdname = ''ECH'', this_arg1 = 1, this_arg2 = 0,
              argsfound = 1 \<rparr>)
   \<and> ParseInputLine sc ''ech 1'' = ParseInputLine sc ''ECH 1''
   \<and> ParseInputLine sc ''ECH'' =
     (True, \<lparr> have_command = True, this_cmdname = ''ECH'', this_arg1 = 0, this_arg2 = 0,
              argsfound = 0 \<rparr>)
   \<and> (CHR ''?'' \<in> set (c_string line) \<longrightarrow>
        ParseInputLine sc line =
          (True, \<lparr> have_command = True, this_cmdname = cmd_help, this_arg1 = 0, this_arg2 = 0,
                   argsfound = 0 \<rparr>))
   \<and> state (scan_line sc ''ech 1 2 3'' scan_start) = PSTATE_ERROR
   \<and> ParseInputLine sc ''ech 1 2 3'' = (False, ResetState)
   \<and> state (scan_line sc ''ABCD'' scan_start) = PSTATE_ERROR
   \<and> ParseInputLine sc ''ABCD'' = (False, ResetState)
   \<and> (state s = PSTATE_ERROR \<longrightarrow> state (scan_line sc rest s) = PSTATE_ERROR)"
  using parse_ECH_1 [of sc] parse_ech_1_folded [of sc] parse_ECH [of sc]
    question_overrides [of line sc] parse_three_args [of sc] parse_four_letters [of sc]
    error_sticky_line [of s sc rest]
  by (simp add: cmd_help_def)

theorem C5_parse_input_line_witness:
  "CHR ''?'' \<in> set (c_string ''  ?  '')
   \<and> ParseInputLine True ''  ?  '' =
       (True, \<lparr> have_command = True, this_cmdname = ''HLP'', this_arg1 = 0, this_arg2 = 0,
                argsfound = 0 \<rparr>)
   \<and> state (scan_char True (CHR ''?'') scan_start) = PSTATE_ERROR
   \<and> state (scan_line True ''  '' (scan_char True (CHR ''?'') scan_start)) = PSTATE_ERROR"
proof -
  have q: "CHR ''?'' \<in> set (c_string ''  ?  '')"
    by (simp add: c_string_def)
  have e: "state (scan_char True (CHR ''?'') scan_start) = PSTATE_ERROR"
    by code_simp
  from C5_parse_input_line [of True "''  ?  ''" "scan_char True (CHR ''?'') scan_start" "''  ''"]
  show ?thesis using q e by (simp add: cmd_help_def)
qed
subsection \<open>Scanning a well-formed line segment by segment\<close>

lemma scan_line_append:
  "CHR 0x00 \<notin> set xs \<Longrightarrow> scan_line sc (xs @ ys) s = scan_line sc ys (scan_line sc xs s)"
  by (induction xs arbitrary: s) auto

lemma char_value_NUL: "char_value sc (CHR 0x00) = 0"
  by (simp add: char_value_def)

lemma char_value_question: "char_value sc (CHR ''?'') = 63"
  by (simp add: char_value_def)

lemma is_letter_classify:
  "is_letter (classify sc c) =
     (97 \<le> char_value sc c \<and> char_value sc c \<le> 122 \<or>
      65 \<le> char_value sc c \<and> char_value sc c \<le> 90)"
  by (simp add: classify_def Let_def)

lemma is_digit_classify:
  "is_digit (classify sc c) = (48 \<le> char_value sc c \<and> char_value sc c \<le> 57)"
  by (simp add: classify_def Let_def)

lemma is_white_classify: "is_white (classify sc c) = (char_value sc c \<le> 32)"
  by (simp add: classify_def Let_def)

lemma folded_classify:
  "folded (classify sc c) =
     (if 97 \<le> char_value sc c \<and> char_value sc c \<le> 122
      then char_of ((of_char c :: nat) - 97 + 65) else c)"
  by (simp add: classify_def Let_def)

lemma folded_digit: "is_digit (classify sc c) \<Longrightarrow> folded (classify sc c) = c"
  by (simp add: folded_classify is_digit_classify)

lemma classify_letter:
  assumes "is_letter (classify sc c)"
  shows "\<not> is_digit (classify sc c)" and "\<not> is_white (classify sc c)"
    and "\<not> is_question (classify sc c)" and "c \<noteq> CHR 0x00"
  using assms char_value_NUL [of sc] char_value_question [of sc]
  by (auto simp: is_letter_classify is_digit_classify is_white_classify is_question_classify)

lemma classify_digit:
  assumes "is_digit (classify sc c)"
  shows "\<not> is_letter (classify sc c)" and "\<not> is_white (classify sc c)"
    and "\<not> is_question (classify sc c)" and "c \<noteq> CHR 0x00"
  using assms char_value_NUL [of sc] char_value_question [of sc]
  by (auto simp: is_letter_classify is_digit_classify is_white_classify is_question_classify)

lemma classify_white:
  assumes "is_white (classify sc c)"
  shows "\<not> is_letter (classify sc c)" and "\<not> is_digit (classify sc c)"
    and "\<not> is_question (classify sc c)"
  using assms char_value_question [of sc]
  by (auto simp: is_letter_classify is_digit_classify is_white_classify is_question_classify)

lemma digit_char:
  assumes "c \<in> set ''0123456789''"
  shows "is_digit (classify sc c)"
    and "(of_char c - 48 :: 16 word) = of_nat (of_char c - 48)"
  using assms by (auto simp: is_digit_classify char_value_def)
lemma blank_char:
  assumes "blank sc c"
  shows "state (scan_char sc c s) = after_blank (state s)"
    and "args_of (scan_char sc c s) = args_of s"
    and "opidx (scan_char sc c s) = opidx s"
  using assms classify_white [of sc c]
  by (cases "state s";
      simp add: blank_def scan_char_def update_data_def Let_def args_of_def)+

lemma after_blank_idem: "after_blank (after_blank a) = after_blank a"
  by (cases a) simp_all

lemma blanks:
  assumes "\<forall>c\<in>set xs. blank sc c"
  shows "state (scan_line sc xs s) = (if xs = [] then state s else after_blank (state s))
       \<and> args_of (scan_line sc xs s) = args_of s
       \<and> opidx (scan_line sc xs s) = opidx s"
  using assms
proof (induction xs arbitrary: s)
  case Nil
  then show ?case by simp
next
  case (Cons c cs)
  then have b: "blank sc c" and n: "c \<noteq> CHR 0x00"
    by (simp_all add: blank_def)
  from Cons have "state (scan_line sc cs (scan_char sc c s)) =
        (if cs = [] then state (scan_char sc c s) else after_blank (state (scan_char sc c s)))
       \<and> args_of (scan_line sc cs (scan_char sc c s)) = args_of (scan_char sc c s)
       \<and> opidx (scan_line sc cs (scan_char sc c s)) = opidx (scan_char sc c s)"
    by simp
  then show ?case
    using n by (simp add: blank_char [OF b] after_blank_idem)
qed

lemma letter_char:
  assumes "is_letter (classify sc c)"
    and "state s = PSTATE_PREAMBLE \<or> state s = PSTATE_OPCODE"
    and "opidx s < NEURAPP_CMD_CHARS"
  shows "state (scan_char sc c s) = PSTATE_OPCODE"
    and "args_of (scan_char sc c s) = args_of s"
    and "opidx (scan_char sc c s) = opidx s + 1"
  using assms classify_letter [of sc c]
  by (auto simp: scan_char_def update_data_def Let_def args_of_def)

lemma letters:
  assumes "\<forall>c\<in>set xs. is_letter (classify sc c)" and "xs \<noteq> []"
    and "state s = PSTATE_PREAMBLE \<or> state s = PSTATE_OPCODE"
    and "opidx s + length xs \<le> NEURAPP_CMD_CHARS"
  shows "state (scan_line sc xs s) = PSTATE_OPCODE \<and> args_of (scan_line sc xs s) = args_of s"
  using assms
proof (induction xs arbitrary: s)
  case Nil
  then show ?case by simp
next
  case (Cons c cs)
  then have l: "is_letter (classify sc c)" and o: "opidx s < NEURAPP_CMD_CHARS"
    by simp_all
  note t = letter_char [OF l Cons.prems(3) o]
  have n: "c \<noteq> CHR 0x00"
    using classify_letter(4) [OF l] .
  show ?case
  proof (cases "cs = []")
    case True
    with t n show ?thesis by simp
  next
    case False
    have "state (scan_line sc cs (scan_char sc c s)) = PSTATE_OPCODE
        \<and> args_of (scan_line sc cs (scan_char sc c s)) = args_of (scan_char sc c s)"
      using Cons.prems False t by (intro Cons.IH) simp_all
    with t n show ?thesis by simp
  qed
qed

lemma decimal_from_Cons:
  "decimal_from a (c # cs) = decimal_from (10 * a + (of_char c - 48)) cs"
  by (simp add: decimal_from_def)

lemma digit1_char:
  assumes "c \<in> set ''0123456789''"
    and "state s = PSTATE_FIRSTGAP \<or> state s = PSTATE_FIRSTARG"
  shows "state (scan_char sc c s) = PSTATE_FIRSTARG"
    and "args_of (scan_char sc c s) =
           (this_arg1 (parser s) * 10 + of_nat (of_char c - 48), this_arg2 (parser s), 1,
            saw_question s)"
proof -
  have d: "is_digit (classify sc c)"
    using assms(1) by (rule digit_char(1))
  note f = classify_digit [OF d] folded_digit [OF d] digit_char(2) [OF assms(1)]
  show "state (scan_char sc c s) = PSTATE_FIRSTARG"
    using assms(2) d f by (auto simp: scan_char_def update_data_def Let_def)
  show "args_of (scan_char sc c s) =
           (this_arg1 (parser s) * 10 + of_nat (of_char c - 48), this_arg2 (parser s), 1,
            saw_question s)"
    using assms(2) d f by (auto simp: scan_char_def update_data_def Let_def args_of_def)
qed

lemma digit2_char:
  assumes "c \<in> set ''0123456789''"
    and "state s = PSTATE_SECONDGAP \<or> state s = PSTATE_SECONDARG"
  shows "state (scan_char sc c s) = PSTATE_SECONDARG"
    and "args_of (scan_char sc c s) =
           (this_arg1 (parser s), this_arg2 (parser s) * 10 + of_nat (of_char c - 48), 2,
            saw_question s)"
proof -
  have d: "is_digit (classify sc c)"
    using assms(1) by (rule digit_char(1))
  note f = classify_digit [OF d] folded_digit [OF d] digit_char(2) [OF assms(1)]
  show "state (scan_char sc c s) = PSTATE_SECONDARG"
    using assms(2) d f by (auto simp: scan_char_def update_data_def Let_def)
  show "args_of (scan_char sc c s) =
           (this_arg1 (parser s), this_arg2 (parser s) * 10 + of_nat (of_char c - 48), 2,
            saw_question s)"
    using assms(2) d f by (auto simp: scan_char_def update_data_def Let_def args_of_def)
qed
lemma digits1:
  assumes "set xs \<subseteq> set ''0123456789''" and "xs \<noteq> []"
    and "state s = PSTATE_FIRSTGAP \<or> state s = PSTATE_FIRSTARG"
    and "this_arg1 (parser s) = of_nat a"
  shows "state (scan_line sc xs s) = PSTATE_FIRSTARG
       \<and> args_of (scan_line sc xs s) =
           (of_nat (decimal_from a xs), this_arg2 (parser s), 1, saw_question s)"
  using assms
proof (induction xs arbitrary: s a)
  case Nil
  then show ?case by simp
next
  case (Cons c cs)
  then have c: "c \<in> set ''0123456789''"
    by simp
  let ?t = "scan_char sc c s"
  note t = digit1_char [OF c Cons.prems(3), of sc]
  have n: "c \<noteq> CHR 0x00"
    using c by auto
  have a: "this_arg1 (parser ?t) = of_nat (10 * a + (of_char c - 48))"
    and r: "this_arg2 (parser ?t) = this_arg2 (parser s)" "saw_question ?t = saw_question s"
      "argsfound (parser ?t) = 1"
    using t(2) Cons.prems(4) by (simp_all add: args_of_def mult.commute)
  show ?case
  proof (cases "cs = []")
    case True
    with t a r n show ?thesis
      by (simp add: args_of_def decimal_from_def)
  next
    case False
    have "state (scan_line sc cs ?t) = PSTATE_FIRSTARG
        \<and> args_of (scan_line sc cs ?t) =
            (of_nat (decimal_from (10 * a + (of_char c - 48)) cs), this_arg2 (parser ?t), 1,
             saw_question ?t)"
      using Cons.prems(1) False t(1) a by (intro Cons.IH) simp_all
    with n r show ?thesis
      by (simp add: decimal_from_Cons)
  qed
qed

lemma digits2:
  assumes "set xs \<subseteq> set ''0123456789''" and "xs \<noteq> []"
    and "state s = PSTATE_SECONDGAP \<or> state s = PSTATE_SECONDARG"
    and "this_arg2 (parser s) = of_nat a"
  shows "state (scan_line sc xs s) = PSTATE_SECONDARG
       \<and> args_of (scan_line sc xs s) =
           (this_arg1 (parser s), of_nat (decimal_from a xs), 2, saw_question s)"
  using assms
proof (induction xs arbitrary: s a)
  case Nil
  then show ?case by simp
next
  case (Cons c cs)
  then have c: "c \<in> set ''0123456789''"
    by simp
  let ?t = "scan_char sc c s"
  note t = digit2_char [OF c Cons.prems(3), of sc]
  have n: "c \<noteq> CHR 0x00"
    using c by auto
  have a: "this_arg2 (parser ?t) = of_nat (10 * a + (of_char c - 48))"
    and r: "this_arg1 (parser ?t) = this_arg1 (parser s)" "saw_question ?t = saw_question s"
      "argsfound (parser ?t) = 2"
    using t(2) Cons.prems(4) by (simp_all add: args_of_def mult.commute)
  show ?case
  proof (cases "cs = []")
    case True
    with t a r n show ?thesis
      by (simp add: args_of_def decimal_from_def)
  next
    case False
    have "state (scan_line sc cs ?t) = PSTATE_SECONDARG
        \<and> args_of (scan_line sc cs ?t) =
            (this_arg1 (parser ?t), of_nat (decimal_from (10 * a + (of_char c - 48)) cs), 2,
             saw_question ?t)"
      using Cons.prems(1) False t(1) a by (intro Cons.IH) simp_all
    with n r show ?thesis
      by (simp add: decimal_from_Cons)
  qed
qed

lemma no_NUL:
  "\<forall>c\<in>set xs. blank sc c \<Longrightarrow> CHR 0x00 \<notin> set xs"
  "\<forall>c\<in>set xs. is_letter (classify sc c) \<Longrightarrow> CHR 0x00 \<notin> set xs"
  "set xs \<subseteq> set ''0123456789'' \<Longrightarrow> CHR 0x00 \<notin> set xs"
  using classify_letter(4) by (auto simp: blank_def)


text \<open>The scan of a line up to the end of its first argument.\<close>

lemma scan_first_arg:
  assumes "\<forall>c\<in>set pre. blank sc c"
    and "opc \<noteq> []" "length opc \<le> NEURAPP_CMD_CHARS" "\<forall>c\<in>set opc. is_letter (classify sc c)"
    and "gap \<noteq> []" "\<forall>c\<in>set gap. blank sc c"
    and "ds \<noteq> []" "set ds \<subseteq> set ''0123456789''"
  shows "\<exists>s1. scan_line sc (pre @ opc @ gap @ ds @ rest) scan_start = scan_line sc rest s1
          \<and> state s1 = PSTATE_FIRSTARG \<and> args_of s1 = (of_nat (decimal ds), 0, 1, False)"
proof -
  define sa where "sa = scan_line sc pre scan_start"
  define sb where "sb = scan_line sc opc sa"
  define sc' where "sc' = scan_line sc gap sb"
  define sd where "sd = scan_line sc ds sc'"
  have start: "state scan_start = PSTATE_PREAMBLE" "opidx scan_start = 0"
    "args_of scan_start = (0, 0, 0, False)"
    by (simp_all add: scan_start_def args_of_def ResetState_def)
  have a: "state sa = PSTATE_PREAMBLE" "opidx sa = 0" "args_of sa = (0, 0, 0, False)"
    using blanks [OF assms(1), of scan_start] start by (simp_all add: sa_def)
  have b: "state sb = PSTATE_OPCODE" "args_of sb = (0, 0, 0, False)"
    using letters [OF assms(4) assms(2), of sa] a assms(3) by (simp_all add: sb_def)
  have c: "state sc' = PSTATE_FIRSTGAP" "args_of sc' = (0, 0, 0, False)"
    using blanks [OF assms(6), of sb] b assms(5) by (simp_all add: sc'_def)
  have "this_arg1 (parser sc') = of_nat 0"
    using c(2) by (simp add: args_of_def)
  from digits1 [OF assms(8) assms(7) _ this, of sc] c
  have d: "state sd = PSTATE_FIRSTARG" "args_of sd = (of_nat (decimal ds), 0, 1, False)"
    by (simp_all add: sd_def args_of_def decimal_def)
  have "scan_line sc (pre @ opc @ gap @ ds @ rest) scan_start = scan_line sc rest sd"
    using no_NUL(1) [OF assms(1)] no_NUL(2) [OF assms(4)] no_NUL(1) [OF assms(6)]
      no_NUL(3) [OF assms(8)]
    by (simp add: scan_line_append sa_def sb_def sc'_def sd_def)
  with d show ?thesis by blast
qed

lemma parse_result:
  assumes "state (scan_line sc line scan_start) \<noteq> PSTATE_ERROR"
    and "\<not> saw_question (scan_line sc line scan_start)"
  shows "ParseInputLine sc line = (True, parser (scan_line sc line scan_start))"
  using assms by (simp add: ParseInputLine_def Let_def)

lemma parse_one_arg:
  assumes "\<forall>c\<in>set pre. blank sc c"
    and "opc \<noteq> []" "length opc \<le> NEURAPP_CMD_CHARS" "\<forall>c\<in>set opc. is_letter (classify sc c)"
    and "gap \<noteq> []" "\<forall>c\<in>set gap. blank sc c"
    and "ds \<noteq> []" "set ds \<subseteq> set ''0123456789''"
    and "\<forall>c\<in>set tail. blank sc c"
  shows "\<exists>p. ParseInputLine sc (pre @ opc @ gap @ ds @ tail) = (True, p)
          \<and> this_arg1 p = of_nat (decimal ds) \<and> argsfound p = 1"
proof -
  let ?line = "pre @ opc @ gap @ ds @ tail"
  obtain s1 where s1: "scan_line sc ?line scan_start = scan_line sc tail s1"
    "state s1 = PSTATE_FIRSTARG" "args_of s1 = (of_nat (decimal ds), 0, 1, False)"
    using scan_first_arg [OF assms(1-8), of tail] by blast
  have "state (scan_line sc tail s1) \<noteq> PSTATE_ERROR"
    and "args_of (scan_line sc tail s1) = (of_nat (decimal ds), 0, 1, False)"
    using blanks [OF assms(9), of s1] s1(2,3) by (simp_all split: if_splits)
  then show ?thesis
    using parse_result [of sc ?line] s1(1) by (simp add: args_of_def)
qed

lemma parse_two_args:
  assumes "\<forall>c\<in>set pre. blank sc c"
    and "opc \<noteq> []" "length opc \<le> NEURAPP_CMD_CHARS" "\<forall>c\<in>set opc. is_letter (classify sc c)"
    and "gap \<noteq> []" "\<forall>c\<in>set gap. blank sc c"
    and "ds \<noteq> []" "set ds \<subseteq> set ''0123456789''"
    and "gap2 \<noteq> []" "\<forall>c\<in>set gap2. blank sc c"
    and "ds2 \<noteq> []" "set ds2 \<subseteq> set ''0123456789''"
    and "\<forall>c\<in>set tail. blank sc c"
  shows "\<exists>p. ParseInputLine sc (pre @ opc @ gap @ ds @ gap2 @ ds2 @ tail) = (True, p)
          \<and> this_arg1 p = of_nat (decimal ds) \<and> this_arg2 p = of_nat (decimal ds2)
          \<and> argsfound p = 2"
proof -
  let ?line = "pre @ opc @ gap @ ds @ gap2 @ ds2 @ tail"
  obtain s1 where s1: "scan_line sc ?line scan_start = scan_line sc (gap2 @ ds2 @ tail) s1"
    "state s1 = PSTATE_FIRSTARG" "args_of s1 = (of_nat (decimal ds), 0, 1, False)"
    using scan_first_arg [OF assms(1-8), of "gap2 @ ds2 @ tail"] by blast
  define s2 where "s2 = scan_line sc gap2 s1"
  define s3 where "s3 = scan_line sc ds2 s2"
  have s2: "state s2 = PSTATE_SECONDGAP" "args_of s2 = (of_nat (decimal ds), 0, 1, False)"
    using blanks [OF assms(10), of s1] s1(2,3) assms(9) by (simp_all add: s2_def)
  have "this_arg2 (parser s2) = of_nat 0"
    using s2(2) by (simp add: args_of_def)
  from digits2 [OF assms(12) assms(11) _ this, of sc] s2
  have s3: "state s3 = PSTATE_SECONDARG"
    "args_of s3 = (of_nat (decimal ds), of_nat (decimal ds2), 2, False)"
    by (simp_all add: s3_def args_of_def decimal_def)
  have e: "scan_line sc ?line scan_start = scan_line sc tail s3"
    using s1(1) no_NUL(1) [OF assms(10)] no_NUL(3) [OF assms(12)]
    by (simp add: scan_line_append s2_def s3_def)
  have "state (scan_line sc tail s3) \<noteq> PSTATE_ERROR"
    and "args_of (scan_line sc tail s3) = (of_nat (decimal ds), of_nat (decimal ds2), 2, False)"
    using blanks [OF assms(13), of s3] s3 by (simp_all split: if_splits)
  then show ?thesis
    using parse_result [of sc ?line] e by (simp add: args_of_def)
qed

text \<open>
  Claim C10. The decimal arguments are accumulated in 16-bit unsigned fields with no
  overflow check. For every line made of optional white space, an opcode of one to
  three letters, white space, a digit string, then either optional white space or white
  space, a second digit string and optional white space, the parse is reported valid
  and each stored argument is the number its digit string writes, modulo \<open>2^16\<close>; this
  holds in particular when that number is 65536 or more.
\<close>

theorem C10_arguments_wrap:
  assumes "\<forall>c\<in>set pre. blank sc c"
    and "opc \<noteq> []" "length opc \<le> NEURAPP_CMD_CHARS" "\<forall>c\<in>set opc. is_letter (classify sc c)"
    and "gap \<noteq> []" "\<forall>c\<in>set gap. blank sc c"
    and "ds \<noteq> []" "set ds \<subseteq> set ''0123456789''"
    and "gap2 \<noteq> []" "\<forall>c\<in>set gap2. blank sc c"
    and "ds2 \<noteq> []" "set ds2 \<subseteq> set ''0123456789''"
    and "\<forall>c\<in>set tail. blank sc c"
  shows "(\<exists>p. ParseInputLine sc (pre @ opc @ gap @ ds @ tail) = (True, p)
            \<and> unat (this_arg1 p) = decimal ds mod 2 ^ 16 \<and> argsfound p = 1)
       \<and> (\<exists>p. ParseInputLine sc (pre @ opc @ gap @ ds @ gap2 @ ds2 @ tail) = (True, p)
            \<and> unat (this_arg1 p) = decimal ds mod 2 ^ 16
            \<and> unat (this_arg2 p) = decimal ds2 mod 2 ^ 16 \<and> argsfound p = 2)"
  using parse_one_arg [OF assms(1-8) assms(13)] parse_two_args [OF assms]
  by (auto simp: unat_of_nat)
theorem C10_arguments_wrap_witness:
  "65536 \<le> decimal ''65537'' \<and> 65536 \<le> decimal ''70000''
   \<and> (\<exists>p. ParseInputLine True '' ech 65537 '' = (True, p)
         \<and> unat (this_arg1 p) = 1 \<and> argsfound p = 1)
   \<and> (\<exists>p. ParseInputLine True '' ech 65537 70000 '' = (True, p)
         \<and> unat (this_arg1 p) = 1 \<and> unat (this_arg2 p) = 4464 \<and> argsfound p = 2)"
proof -
  have d: "decimal ''65537'' = 65537" "decimal ''70000'' = 70000"
    by (simp_all add: decimal_def decimal_from_def)
  have b: "\<forall>c\<in>set '' ''. blank True c"
    by (simp add: blank_def is_white_classify char_value_def)
  have l: "\<forall>c\<in>set ''ech''. is_letter (classify True c)"
    by (simp add: is_letter_classify char_value_def)
  have n: "length ''ech'' \<le> NEURAPP_CMD_CHARS"
    by (simp add: NEURAPP_CMD_CHARS_def)
  from C10_arguments_wrap [of "'' ''" True "''ech''" "'' ''" "''65537''" "'' ''" "''70000''"
      "'' ''", OF b _ n l _ b _ _ _ b _ _ b]
  show ?thesis
    by (simp add: d)
qed
section \<open>Properties of the receive buffer\<close>

lemma and_line_count: "(x::nat) AND (UART_LINE_COUNT - 1) = x mod UART_LINE_COUNT"
proof -
  have "(7::nat) = mask 3"
    by (simp add: mask_eq_exp_minus_1)
  then have "x AND 7 = take_bit 3 x"
    by (simp only: take_bit_eq_mask)
  then show ?thesis
    by (simp add: UART_LINE_COUNT_def take_bit_eq_mod)
qed

lemma line_size: "UART_LINE_SIZE = 64"
  by (simp add: UART_LINE_SIZE_def UART_LINE_BITS_def)

lemma slot_offset: "push_bit UART_LINE_BITS row = row * UART_LINE_SIZE"
  by (simp add: UART_LINE_SIZE_def push_bit_eq_mult)

lemma slots_disjoint:
  "r \<noteq> r' \<Longrightarrow> i < UART_LINE_SIZE \<Longrightarrow> j < UART_LINE_SIZE \<Longrightarrow>
   r * UART_LINE_SIZE + i \<noteq> r' * UART_LINE_SIZE + j"
proof
  assume a: "r \<noteq> r'" "i < UART_LINE_SIZE" "j < UART_LINE_SIZE"
    and e: "r * UART_LINE_SIZE + i = r' * UART_LINE_SIZE + j"
  have "(r * UART_LINE_SIZE + i) div UART_LINE_SIZE = r"
    "(r' * UART_LINE_SIZE + j) div UART_LINE_SIZE = r'"
    using a by simp_all
  with e a(1) show False by simp
qed

lemma rows_distinct:
  assumes "a < b" and "b < UART_LINE_COUNT"
  shows "(x + a) mod UART_LINE_COUNT \<noteq> (x + b) mod UART_LINE_COUNT"
proof
  assume "(x + a) mod UART_LINE_COUNT = (x + b) mod UART_LINE_COUNT"
  then have "UART_LINE_COUNT dvd (x + b) - (x + a)"
    using assms(1) by (metis add_le_cancel_left less_imp_le_nat mod_eq_dvd_iff_nat)
  then have "UART_LINE_COUNT dvd b - a"
    by simp
  then have "UART_LINE_COUNT \<le> b - a"
    using assms(1) by (simp add: dvd_imp_le)
  with assms show False by simp
qed

text \<open>Writing a terminator never removes the terminator of a slot.\<close>

lemma terminated_write_NUL:
  "terminated s row \<Longrightarrow> terminated (s \<lparr> UART_recvlines := (UART_recvlines s) (a := NUL) \<rparr>) row"
  by (auto simp: terminated_def)

lemma terminated_write_other:
  assumes "terminated s row" and "row \<noteq> r" and "i < UART_LINE_SIZE"
  shows "terminated
           (s \<lparr> UART_recvlines := (UART_recvlines s) (push_bit UART_LINE_BITS r + i := c) \<rparr>) row"
  using assms slots_disjoint [of row r _ i]
  by (fastforce simp: terminated_def slot_offset)

lemma terminated_cong:
  "UART_recvlines s' = UART_recvlines s \<Longrightarrow> terminated s' row = terminated s row"
  by (simp add: terminated_def)
subsection \<open>The invariant of the receive side\<close>

lemma and_line_count_Suc: "(x::nat) AND (UART_LINE_COUNT - Suc 0) = x mod UART_LINE_COUNT"
  using and_line_count [of x] by simp

lemma uart_inv_rows:
  "uart_inv s =
     (rowcount s \<le> UART_LINE_COUNT - 1
      \<and> oldestrow s < UART_LINE_COUNT
      \<and> newestrow s = (oldestrow s + rowcount s) mod UART_LINE_COUNT
      \<and> recvcharptr s \<le> UART_LINE_SIZE
      \<and> (\<forall>k<rowcount s. terminated s ((oldestrow s + k) mod UART_LINE_COUNT)))"
  unfolding uart_inv_def complete_rows_def and_line_count by auto

lemma uart_inv_saw_cr: "uart_inv (s \<lparr> saw_cr := b \<rparr>) = uart_inv s"
  by (simp add: uart_inv_rows terminated_def)

lemma add_char_fields:
  "rowcount (add_char c s) = rowcount s"
  "oldestrow (add_char c s) = oldestrow s"
  "newestrow (add_char c s) = newestrow s"
  "recvcharptr (add_char c s) \<le> UART_LINE_SIZE \<longleftrightarrow> recvcharptr s \<le> UART_LINE_SIZE"
  by (auto simp: add_char_def)

lemma add_char_terminated:
  assumes "terminated s row" and "row \<noteq> newestrow s"
  shows "terminated (add_char c s) row"
proof (cases "recvcharptr s < UART_LINE_SIZE")
  case False
  with assms show ?thesis by (simp add: add_char_def)
next
  case True
  from terminated_write_other [OF assms True, of c]
  show ?thesis
    using True by (simp add: add_char_def terminated_def)
qed

lemma uart_inv_add_char:
  assumes "uart_inv s"
  shows "uart_inv (add_char c s)"
proof -
  have "terminated (add_char c s) ((oldestrow s + k) mod UART_LINE_COUNT)"
    if k: "k < rowcount s" for k
  proof -
    have "(oldestrow s + k) mod UART_LINE_COUNT \<noteq> newestrow s"
      using assms k rows_distinct [of k "rowcount s" "oldestrow s"]
      by (simp add: uart_inv_rows UART_LINE_COUNT_def)
    moreover have "terminated s ((oldestrow s + k) mod UART_LINE_COUNT)"
      using assms k by (simp add: uart_inv_rows)
    ultimately show ?thesis
      by (simp add: add_char_terminated)
  qed
  then show ?thesis
    using assms by (simp add: uart_inv_rows add_char_fields)
qed

lemma end_of_line_fields:
  "rowcount (end_of_line s) =
     (if rowcount s < UART_LINE_COUNT - 1 then rowcount s + 1 else rowcount s)"
  "oldestrow (end_of_line s) = oldestrow s"
  "newestrow (end_of_line s) =
     (if rowcount s < UART_LINE_COUNT - 1 then (newestrow s + 1) mod UART_LINE_COUNT
      else newestrow s)"
  "recvcharptr (end_of_line s) = 0"
  "uart_filter_empty_lines (end_of_line s) = uart_filter_empty_lines s"
  "saw_cr (end_of_line s) = saw_cr s"
  unfolding end_of_line_def Let_def and_line_count by simp_all

lemma end_of_line_terminated:
  "terminated s row \<Longrightarrow> terminated (end_of_line s) row"
  unfolding end_of_line_def Let_def
  by (auto simp: terminated_def)

lemma end_of_line_newest: "terminated (end_of_line s) (newestrow s)"
proof -
  define ptr where
    "ptr = (if recvcharptr s \<ge> UART_LINE_SIZE then UART_LINE_SIZE - 1 else recvcharptr s)"
  have "ptr \<in> {0..<UART_LINE_SIZE}"
    by (simp add: ptr_def line_size)
  moreover have "UART_recvlines (end_of_line s) (push_bit UART_LINE_BITS (newestrow s) + ptr) = NUL"
    unfolding end_of_line_def Let_def ptr_def by simp
  ultimately show ?thesis
    unfolding terminated_def by blast
qed

lemma uart_inv_end_of_line:
  assumes "uart_inv s"
  shows "uart_inv (end_of_line s)"
proof -
  note i = assms [unfolded uart_inv_rows]
  have old: "terminated (end_of_line s) ((oldestrow s + k) mod UART_LINE_COUNT)"
    if "k < rowcount s" for k
    using i that by (simp add: end_of_line_terminated)
  show ?thesis
  proof (cases "rowcount s < UART_LINE_COUNT - 1")
    case False
    then show ?thesis
      using i old by (simp add: uart_inv_rows end_of_line_fields)
  next
    case True
    have "terminated (end_of_line s) ((oldestrow s + k) mod UART_LINE_COUNT)"
      if "k < rowcount s + 1" for k
    proof (cases "k < rowcount s")
      case True
      then show ?thesis by (rule old)
    next
      case False
      with that have "k = rowcount s" by simp
      then show ?thesis
        using end_of_line_newest [of s] i by simp
    qed
    then show ?thesis
      using i True by (simp add: uart_inv_rows end_of_line_fields mod_Suc_eq)
  qed
qed

lemma uart_inv_recv: "uart_inv s \<Longrightarrow> uart_inv (UART_HandleRecvChar_ISR c s)"
  by (simp add: UART_HandleRecvChar_ISR_def Let_def uart_inv_saw_cr uart_inv_add_char
      uart_inv_end_of_line)

lemma uart_inv_done:
  assumes "uart_inv s"
  shows "uart_inv (UART_DoneWithLine s)"
proof (cases "0 < rowcount s")
  case False
  with assms show ?thesis by (simp add: UART_DoneWithLine_def)
next
  case True
  note i = assms [unfolded uart_inv_rows]
  let ?o = "(oldestrow s + 1) mod UART_LINE_COUNT"
  let ?s' = "s \<lparr> oldestrow := ?o, rowcount := rowcount s - 1 \<rparr>"
  have d: "UART_DoneWithLine s = ?s'"
    using True unfolding UART_DoneWithLine_def and_line_count by simp
  have o: "?o < UART_LINE_COUNT"
    by (simp add: UART_LINE_COUNT_def)
  have e: "(?o + k) mod UART_LINE_COUNT = (oldestrow s + (k + 1)) mod UART_LINE_COUNT" for k
    by (simp add: mod_add_left_eq add.assoc add.commute [of 1])
  have n: "newestrow s = (?o + (rowcount s - 1)) mod UART_LINE_COUNT"
    unfolding e using i True by simp
  have t: "terminated ?s' ((?o + k) mod UART_LINE_COUNT)" if "k < rowcount s - 1" for k
  proof -
    have "k + 1 < rowcount s"
      using that by simp
    with i have "terminated s ((oldestrow s + (k + 1)) mod UART_LINE_COUNT)"
      by blast
    then show ?thesis
      unfolding e by (simp add: terminated_def)
  qed
  have "rowcount s \<le> UART_LINE_COUNT - 1"
    using i by blast
  then have r: "rowcount s - 1 \<le> UART_LINE_COUNT - 1"
    by arith
  have p: "recvcharptr s \<le> UART_LINE_SIZE"
    using i by blast
  have "uart_inv ?s'"
    unfolding uart_inv_rows using r p o n t by simp
  with d show ?thesis by simp
qed

lemma uart_inv_filter: "uart_inv s \<Longrightarrow> uart_inv (UART_SetLineFiltering b s)"
  by (simp add: UART_SetLineFiltering_def uart_inv_rows terminated_def)

lemma uart_inv_init: "uart_inv (UART_InitBuffers_ISR s)"
  by (simp add: UART_InitBuffers_ISR_def uart_inv_rows UART_LINE_COUNT_def)

lemma uart_inv_step: "uart_inv s \<Longrightarrow> uart_inv (uart_step s ev)"
  by (cases ev) (simp_all add: uart_inv_recv uart_inv_done uart_inv_filter)

lemma uart_inv_run: "uart_inv s \<Longrightarrow> uart_inv (uart_run evs s)"
  unfolding uart_run_def
  by (induction evs arbitrary: s) (simp_all add: uart_inv_step)
text \<open>
  Claim C4. Start from the buffer as \<open>UART_InitBuffers_ISR\<close> leaves it and let any
  sequence of characters arrive (also interleaved with the main loop releasing lines or
  switching the filter). Then the number of complete unread lines is at most
  \<open>UART_LINE_COUNT - 1\<close>, and the slot of every complete line holds a terminator at an
  index below \<open>UART_LINE_SIZE\<close>.
\<close>

theorem C4_lines_bounded_and_terminated:
  "rowcount (uart_run evs (UART_InitBuffers_ISR s0)) \<le> UART_LINE_COUNT - 1
   \<and> (\<forall>row\<in>set (complete_rows (uart_run evs (UART_InitBuffers_ISR s0))).
         \<exists>i\<in>{0..<UART_LINE_SIZE}.
           UART_recvlines (uart_run evs (UART_InitBuffers_ISR s0))
             (push_bit UART_LINE_BITS row + i) = NUL)"
  using uart_inv_run [OF uart_inv_init, of evs s0]
  by (simp add: uart_inv_def terminated_def)

theorem C4_lines_bounded_and_terminated_witness:
  "complete_rows (uart_feed (''ab'' @ [CR] @ ''cd'' @ [LF]) (UART_InitBuffers_ISR uart_boot))
     = [0, 1]
   \<and> rowcount (uart_feed (''ab'' @ [CR] @ ''cd'' @ [LF]) (UART_InitBuffers_ISR uart_boot)) = 2
   \<and> (\<exists>i\<in>{0..<UART_LINE_SIZE}.
         UART_recvlines (uart_feed (''ab'' @ [CR] @ ''cd'' @ [LF]) (UART_InitBuffers_ISR uart_boot))
           (push_bit UART_LINE_BITS 1 + i) = NUL)
   \<and> slot_text (uart_feed (''ab'' @ [CR] @ ''cd'' @ [LF]) (UART_InitBuffers_ISR uart_boot)) 1
     = ''cd''"
proof -
  let ?s = "uart_feed (''ab'' @ [CR] @ ''cd'' @ [LF]) (UART_InitBuffers_ISR uart_boot)"
  have r: "complete_rows ?s = [0, 1]" and n: "rowcount ?s = 2"
    and t: "slot_text ?s 1 = ''cd''"
    by code_simp+
  from C4_lines_bounded_and_terminated
    [of "map Recv (''ab'' @ [CR] @ ''cd'' @ [LF])" uart_boot]
  show ?thesis
    unfolding uart_feed_def [symmetric] using r n t by simp
qed
subsection \<open>Line terminators\<close>

lemma CR_LF_distinct: "CR \<noteq> LF" "LF \<noteq> CR"
  by (simp_all add: CR_def LF_def)

lemma recv_LF_after_CR:
  "saw_cr s \<Longrightarrow> UART_HandleRecvChar_ISR LF s = s \<lparr> saw_cr := False \<rparr>"
  by (simp add: UART_HandleRecvChar_ISR_def CR_LF_distinct)

lemma recv_LF_alone:
  "\<not> saw_cr s \<Longrightarrow>
   UART_HandleRecvChar_ISR LF s = (UART_HandleRecvChar_ISR CR s) \<lparr> saw_cr := False \<rparr>"
  by (simp add: UART_HandleRecvChar_ISR_def CR_LF_distinct)

lemma saw_cr_recv: "saw_cr (UART_HandleRecvChar_ISR c s) = (CR = c)"
  by (simp add: UART_HandleRecvChar_ISR_def Let_def)

lemma recv_CR_LF:
  "UART_HandleRecvChar_ISR LF (UART_HandleRecvChar_ISR CR s)
     = (UART_HandleRecvChar_ISR CR s) \<lparr> saw_cr := False \<rparr>"
  by (simp add: recv_LF_after_CR saw_cr_recv)

lemma rowcount_recv_CR:
  "rowcount (UART_HandleRecvChar_ISR CR s) =
     (if (uart_filter_empty_lines s \<and> recvcharptr s = 0) \<or> \<not> rowcount s < UART_LINE_COUNT - 1
      then rowcount s else rowcount s + 1)"
  by (auto simp: UART_HandleRecvChar_ISR_def Let_def CR_LF_distinct end_of_line_fields)

lemma uart_feed_two:
  "uart_feed [c, d] s = UART_HandleRecvChar_ISR d (UART_HandleRecvChar_ISR c s)"
  by (simp add: uart_feed_def uart_run_def)

subsection \<open>A terminator that arrives when the buffer is full\<close>

lemma slot_text_cong:
  assumes "\<And>i. i < UART_LINE_SIZE \<Longrightarrow>
             UART_recvlines s' (push_bit UART_LINE_BITS row + i)
               = UART_recvlines s (push_bit UART_LINE_BITS row + i)"
  shows "slot_text s' row = slot_text s row"
  unfolding slot_text_def using assms
  by (intro arg_cong [of _ _ "takeWhile (\<lambda>c. c \<noteq> NUL)"] map_cong) simp_all

lemma end_of_line_full:
  assumes "rowcount s = UART_LINE_COUNT - 1"
  shows "rowcount (end_of_line s) = UART_LINE_COUNT - 1"
    and "newestrow (end_of_line s) = newestrow s"
    and "oldestrow (end_of_line s) = oldestrow s"
    and "recvcharptr (end_of_line s) = 0"
    and "slot_text (end_of_line s) (newestrow s) = []"
    and "row \<noteq> newestrow s \<Longrightarrow> slot_text (end_of_line s) row = slot_text s row"
proof -
  define ptr where
    "ptr = (if recvcharptr s \<ge> UART_LINE_SIZE then UART_LINE_SIZE - 1 else recvcharptr s)"
  have ptr: "ptr < UART_LINE_SIZE"
    by (simp add: ptr_def line_size)
  have m: "UART_recvlines (end_of_line s) =
             (UART_recvlines s)
               (push_bit UART_LINE_BITS (newestrow s) + ptr := NUL,
                push_bit UART_LINE_BITS (newestrow s) := NUL)"
    using assms unfolding end_of_line_def Let_def ptr_def by simp
  show "rowcount (end_of_line s) = UART_LINE_COUNT - 1"
    "newestrow (end_of_line s) = newestrow s"
    "oldestrow (end_of_line s) = oldestrow s"
    "recvcharptr (end_of_line s) = 0"
    using assms by (simp_all add: end_of_line_fields)
  have "UART_recvlines (end_of_line s) (push_bit UART_LINE_BITS (newestrow s) + 0) = NUL"
    by (simp add: m)
  then show "slot_text (end_of_line s) (newestrow s) = []"
    by (simp add: slot_text_def line_size upt_conv_Cons)
  show "slot_text (end_of_line s) row = slot_text s row" if "row \<noteq> newestrow s"
  proof (rule slot_text_cong)
    fix i assume i: "i < UART_LINE_SIZE"
    have "row * UART_LINE_SIZE + i \<noteq> newestrow s * UART_LINE_SIZE + ptr"
      "row * UART_LINE_SIZE + i \<noteq> newestrow s * UART_LINE_SIZE + 0"
      using that i ptr by (simp_all only: slots_disjoint line_size zero_less_numeral not_False_eq_True)
    then show "UART_recvlines (end_of_line s) (push_bit UART_LINE_BITS row + i)
                 = UART_recvlines s (push_bit UART_LINE_BITS row + i)"
      by (simp add: m slot_offset)
  qed
qed

lemma uart_fields_saw_cr:
  "rowcount (s \<lparr> saw_cr := b \<rparr>) = rowcount s"
  "newestrow (s \<lparr> saw_cr := b \<rparr>) = newestrow s"
  "oldestrow (s \<lparr> saw_cr := b \<rparr>) = oldestrow s"
  "recvcharptr (s \<lparr> saw_cr := b \<rparr>) = recvcharptr s"
  "slot_text (s \<lparr> saw_cr := b \<rparr>) row = slot_text s row"
  "complete_rows (s \<lparr> saw_cr := b \<rparr>) = complete_rows s"
  by (simp_all add: slot_text_def complete_rows_def)

lemma newest_not_complete:
  assumes "uart_inv s"
  shows "newestrow s \<notin> set (complete_rows s)"
proof
  assume "newestrow s \<in> set (complete_rows s)"
  then obtain k where k: "k < rowcount s"
    "newestrow s = (oldestrow s + k) mod UART_LINE_COUNT"
    unfolding complete_rows_def and_line_count by auto
  have "rowcount s < UART_LINE_COUNT"
    using assms by (simp add: uart_inv_rows UART_LINE_COUNT_def)
  from rows_distinct [OF k(1) this, of "oldestrow s"] k(2) assms
  show False
    by (simp add: uart_inv_rows)
qed

text \<open>
  Claim C2 as the code has it. When a terminator is acted on while the buffer already
  holds \<open>UART_LINE_COUNT - 1\<close> complete unread lines, the in-progress slot is terminated
  and reused for the next line: the cursors stay where they are, the count stays
  \<open>UART_LINE_COUNT - 1\<close>, the in-progress slot now holds the empty string (the line just
  received is dropped), and every other slot keeps its text, so the unread lines, the
  oldest included, are all still there.
\<close>

theorem C2_full_buffer_drops_newest:
  assumes "rowcount s = UART_LINE_COUNT - 1"
    and "c = CR \<or> (c = LF \<and> \<not> saw_cr s)"
    and "\<not> (uart_filter_empty_lines s \<and> recvcharptr s = 0)"
  shows "rowcount (UART_HandleRecvChar_ISR c s) = UART_LINE_COUNT - 1
       \<and> newestrow (UART_HandleRecvChar_ISR c s) = newestrow s
       \<and> oldestrow (UART_HandleRecvChar_ISR c s) = oldestrow s
       \<and> recvcharptr (UART_HandleRecvChar_ISR c s) = 0
       \<and> slot_text (UART_HandleRecvChar_ISR c s) (newestrow s) = []
       \<and> (\<forall>row. row \<noteq> newestrow s \<longrightarrow>
             slot_text (UART_HandleRecvChar_ISR c s) row = slot_text s row)
       \<and> UART_GetNextLine (UART_HandleRecvChar_ISR c s) = UART_GetNextLine s
       \<and> (uart_inv s \<longrightarrow>
             map (slot_text (UART_HandleRecvChar_ISR c s))
                 (complete_rows (UART_HandleRecvChar_ISR c s))
               = map (slot_text s) (complete_rows s))"
proof -
  have r: "UART_HandleRecvChar_ISR c s = (end_of_line s) \<lparr> saw_cr := (CR = c) \<rparr>"
    using assms(2,3) by (auto simp: UART_HandleRecvChar_ISR_def CR_LF_distinct)
  note f = end_of_line_full [OF assms(1)]
  have c: "complete_rows (end_of_line s) = complete_rows s"
    using assms(1) by (simp add: complete_rows_def f)
  have "map (slot_text (end_of_line s)) (complete_rows s) = map (slot_text s) (complete_rows s)"
    if "uart_inv s"
  proof (rule map_cong [OF refl])
    fix row assume "row \<in> set (complete_rows s)"
    with newest_not_complete [OF that] have "row \<noteq> newestrow s"
      by blast
    then show "slot_text (end_of_line s) row = slot_text s row"
      by (rule f(6))
  qed
  moreover have "UART_GetNextLine ((end_of_line s) \<lparr> saw_cr := (CR = c) \<rparr>)
      = UART_GetNextLine s"
    using assms(1) by (simp add: UART_GetNextLine_def f)
  ultimately show ?thesis
    unfolding r uart_fields_saw_cr
    by (simp add: f c)
qed
text \<open>
  Claim C2 as stated fails: after seven lines \<open>a\<close> to \<open>g\<close> have filled the buffer,
  receiving an eighth line \<open>h\<close> leaves the oldest unread line \<open>a\<close> in place (it is
  still what \<open>UART_GetNextLine\<close> points at), together with the six after it; the line
  that is lost is \<open>h\<close>.
\<close>

theorem C2_oldest_line_survives:
  "rowcount (uart_feed [CHR ''a'', CR, CHR ''b'', CR, CHR ''c'', CR, CHR ''d'', CR, CHR ''e'', CR,
       CHR ''f'', CR, CHR ''g'', CR] uart_boot) = UART_LINE_COUNT - 1
   \<and> UART_GetNextLine (uart_feed [CHR ''a'', CR, CHR ''b'', CR, CHR ''c'', CR, CHR ''d'', CR,
       CHR ''e'', CR, CHR ''f'', CR, CHR ''g'', CR] uart_boot) = Some 0
   \<and> slot_text (uart_feed [CHR ''a'', CR, CHR ''b'', CR, CHR ''c'', CR, CHR ''d'', CR,
       CHR ''e'', CR, CHR ''f'', CR, CHR ''g'', CR] uart_boot) 0 = ''a''
   \<and> rowcount (uart_feed [CHR ''a'', CR, CHR ''b'', CR, CHR ''c'', CR, CHR ''d'', CR, CHR ''e'', CR,
       CHR ''f'', CR, CHR ''g'', CR, CHR ''h'', CR] uart_boot) = UART_LINE_COUNT - 1
   \<and> UART_GetNextLine (uart_feed [CHR ''a'', CR, CHR ''b'', CR, CHR ''c'', CR, CHR ''d'', CR,
       CHR ''e'', CR, CHR ''f'', CR, CHR ''g'', CR, CHR ''h'', CR] uart_boot) = Some 0
   \<and> slot_text (uart_feed [CHR ''a'', CR, CHR ''b'', CR, CHR ''c'', CR, CHR ''d'', CR,
       CHR ''e'', CR, CHR ''f'', CR, CHR ''g'', CR, CHR ''h'', CR] uart_boot) 0 = ''a''
   \<and> map (slot_text (uart_feed [CHR ''a'', CR, CHR ''b'', CR, CHR ''c'', CR, CHR ''d'', CR,
       CHR ''e'', CR, CHR ''f'', CR, CHR ''g'', CR, CHR ''h'', CR] uart_boot)) [0, 1, 2, 3, 4, 5, 6, 7]
     = [''a'', ''b'', ''c'', ''d'', ''e'', ''f'', ''g'', '''']"
  by code_simp

theorem C2_full_buffer_drops_newest_witness:
  "rowcount (uart_feed [CHR ''a'', CR, CHR ''b'', CR, CHR ''c'', CR, CHR ''d'', CR, CHR ''e'', CR,
       CHR ''f'', CR, CHR ''g'', CR, CHR ''h''] uart_boot) = UART_LINE_COUNT - 1
   \<and> \<not> (uart_filter_empty_lines (uart_feed [CHR ''a'', CR, CHR ''b'', CR, CHR ''c'', CR,
            CHR ''d'', CR, CHR ''e'', CR, CHR ''f'', CR, CHR ''g'', CR, CHR ''h''] uart_boot)
          \<and> recvcharptr (uart_feed [CHR ''a'', CR, CHR ''b'', CR, CHR ''c'', CR,
            CHR ''d'', CR, CHR ''e'', CR, CHR ''f'', CR, CHR ''g'', CR, CHR ''h''] uart_boot) = 0)
   \<and> uart_inv (uart_feed [CHR ''a'', CR, CHR ''b'', CR, CHR ''c'', CR, CHR ''d'', CR, CHR ''e'', CR,
       CHR ''f'', CR, CHR ''g'', CR, CHR ''h''] uart_boot)
   \<and> slot_text (UART_HandleRecvChar_ISR CR (uart_feed [CHR ''a'', CR, CHR ''b'', CR, CHR ''c'', CR,
       CHR ''d'', CR, CHR ''e'', CR, CHR ''f'', CR, CHR ''g'', CR, CHR ''h''] uart_boot)) 0 = ''a''
   \<and> rowcount (UART_HandleRecvChar_ISR CR (uart_feed [CHR ''a'', CR, CHR ''b'', CR, CHR ''c'', CR,
       CHR ''d'', CR, CHR ''e'', CR, CHR ''f'', CR, CHR ''g'', CR, CHR ''h''] uart_boot))
     = UART_LINE_COUNT - 1
   \<and> map (slot_text (UART_HandleRecvChar_ISR CR (uart_feed [CHR ''a'', CR, CHR ''b'', CR,
         CHR ''c'', CR, CHR ''d'', CR, CHR ''e'', CR, CHR ''f'', CR, CHR ''g'', CR, CHR ''h'']
         uart_boot)))
       (complete_rows (UART_HandleRecvChar_ISR CR (uart_feed [CHR ''a'', CR, CHR ''b'', CR,
         CHR ''c'', CR, CHR ''d'', CR, CHR ''e'', CR, CHR ''f'', CR, CHR ''g'', CR, CHR ''h'']
         uart_boot)))
     = [''a'', ''b'', ''c'', ''d'', ''e'', ''f'', ''g'']"
proof -
  let ?s = "uart_feed [CHR ''a'', CR, CHR ''b'', CR, CHR ''c'', CR, CHR ''d'', CR, CHR ''e'', CR,
       CHR ''f'', CR, CHR ''g'', CR, CHR ''h''] uart_boot"
  have h1: "rowcount ?s = UART_LINE_COUNT - 1"
    by code_simp
  have h3: "\<not> (uart_filter_empty_lines ?s \<and> recvcharptr ?s = 0)"
    by code_simp
  have i: "uart_inv ?s"
    by code_simp
  have n: "0 \<noteq> newestrow ?s"
    by code_simp
  have t: "slot_text ?s 0 = ''a''"
    "map (slot_text ?s) (complete_rows ?s) = [''a'', ''b'', ''c'', ''d'', ''e'', ''f'', ''g'']"
    by code_simp+
  from C2_full_buffer_drops_newest [OF h1 _ h3, of CR]
  show ?thesis
    using h1 h3 i n t by simp
qed
subsection \<open>What a line terminator does to the buffer\<close>

lemma line_completedD:
  assumes "line_completed s t"
  shows "rowcount t = rowcount s + 1"
    and "oldestrow t = oldestrow s"
    and "newestrow t = (newestrow s + 1) AND (UART_LINE_COUNT - 1)"
    and "recvcharptr t = 0"
    and "slot_text t (newestrow s) =
           takeWhile (\<lambda>c. c \<noteq> NUL)
             (map (\<lambda>i. UART_recvlines s (push_bit UART_LINE_BITS (newestrow s) + i))
                [0..<min (recvcharptr s) (UART_LINE_SIZE - 1)])"
    and "slot_text t (newestrow t) = []"
  using assms unfolding line_completed_def by blast+

lemma takeWhile_stop: "\<not> P y \<Longrightarrow> takeWhile P (xs @ y # zs) = takeWhile P xs"
  by (induct xs) simp_all

lemma next_row_neq: "(n + 1) mod UART_LINE_COUNT \<noteq> n"
  unfolding UART_LINE_COUNT_def by presburger

lemma end_of_line_advance:
  assumes "rowcount s < UART_LINE_COUNT - 1"
  shows "line_completed s (end_of_line s)"
    and "row \<noteq> newestrow s \<Longrightarrow> row \<noteq> (newestrow s + 1) AND (UART_LINE_COUNT - 1) \<Longrightarrow>
         slot_text (end_of_line s) row = slot_text s row"
proof -
  define ptr where "ptr = min (recvcharptr s) (UART_LINE_SIZE - 1)"
  define new where "new = (newestrow s + 1) mod UART_LINE_COUNT"
  define old where "old = newestrow s"
  have ptr: "ptr < UART_LINE_SIZE"
    by (simp add: ptr_def line_size)
  have ptr': "(if recvcharptr s \<ge> UART_LINE_SIZE then UART_LINE_SIZE - 1 else recvcharptr s) = ptr"
    by (simp add: ptr_def line_size)
  have neq: "new \<noteq> old"
    unfolding new_def old_def by (rule next_row_neq)
  have m: "UART_recvlines (end_of_line s) =
             (UART_recvlines s)
               (old * UART_LINE_SIZE + ptr := NUL, new * UART_LINE_SIZE + 0 := NUL)"
    using assms unfolding end_of_line_def Let_def ptr' and_line_count new_def old_def slot_offset
    by simp
  have f: "rowcount (end_of_line s) = rowcount s + 1"
    "oldestrow (end_of_line s) = oldestrow s"
    "newestrow (end_of_line s) = new"
    "recvcharptr (end_of_line s) = 0"
    "uart_filter_empty_lines (end_of_line s) = uart_filter_empty_lines s"
    using assms by (simp_all add: end_of_line_fields new_def)
  have d: "old * UART_LINE_SIZE + i \<noteq> new * UART_LINE_SIZE + 0" if "i < UART_LINE_SIZE" for i
    using neq that ptr by (intro slots_disjoint) simp_all
  have at: "UART_recvlines (end_of_line s) (old * UART_LINE_SIZE + ptr) = NUL"
    using d [OF ptr] by (simp add: m)
  have below: "UART_recvlines (end_of_line s) (old * UART_LINE_SIZE + i)
      = UART_recvlines s (old * UART_LINE_SIZE + i)" if "i < ptr" for i
  proof -
    have "i < UART_LINE_SIZE" using that ptr by simp
    from d [OF this] that show ?thesis by (simp add: m)
  qed
  have sp: "[0..<UART_LINE_SIZE] = [0..<ptr] @ ptr # [Suc ptr..<UART_LINE_SIZE]"
  proof -
    have "[0..<ptr + (UART_LINE_SIZE - ptr)] = [0..<ptr] @ [ptr..<ptr + (UART_LINE_SIZE - ptr)]"
      by (rule upt_add_eq_append) simp
    moreover have "ptr + (UART_LINE_SIZE - ptr) = UART_LINE_SIZE"
      using ptr by simp
    moreover have "[ptr..<UART_LINE_SIZE] = ptr # [Suc ptr..<UART_LINE_SIZE]"
      using ptr by (rule upt_conv_Cons)
    ultimately show ?thesis by simp
  qed
  have same: "map (\<lambda>i. UART_recvlines (end_of_line s) (old * UART_LINE_SIZE + i)) [0..<ptr]
      = map (\<lambda>i. UART_recvlines s (old * UART_LINE_SIZE + i)) [0..<ptr]"
    by (rule map_cong [OF refl]) (simp add: below)
  have "slot_text (end_of_line s) old =
      takeWhile (\<lambda>c. c \<noteq> NUL)
        (map (\<lambda>i. UART_recvlines (end_of_line s) (old * UART_LINE_SIZE + i)) [0..<ptr])"
    unfolding slot_text_def slot_offset sp using at by (simp add: takeWhile_stop)
  then have tx: "slot_text (end_of_line s) old =
      takeWhile (\<lambda>c. c \<noteq> NUL)
        (map (\<lambda>i. UART_recvlines s (old * UART_LINE_SIZE + i)) [0..<ptr])"
    by (simp only: same)
  have "UART_recvlines (end_of_line s) (new * UART_LINE_SIZE + 0) = NUL"
    by (simp add: m)
  then have empty: "slot_text (end_of_line s) new = []"
    by (simp add: slot_text_def slot_offset line_size upt_conv_Cons)
  show "line_completed s (end_of_line s)"
    using at tx empty neq
    unfolding line_completed_def f and_line_count slot_offset new_def old_def ptr_def
    by simp
  show "slot_text (end_of_line s) row = slot_text s row"
    if "row \<noteq> newestrow s" "row \<noteq> (newestrow s + 1) AND (UART_LINE_COUNT - 1)"
  proof (rule slot_text_cong)
    fix i assume i: "i < UART_LINE_SIZE"
    have z: "0 < UART_LINE_SIZE" by (simp add: line_size)
    have "row \<noteq> old" "row \<noteq> new"
      using that unfolding old_def new_def and_line_count by simp_all
    then have "row * UART_LINE_SIZE + i \<noteq> old * UART_LINE_SIZE + ptr"
      "row * UART_LINE_SIZE + i \<noteq> new * UART_LINE_SIZE + 0"
      using i ptr z by (simp_all only: slots_disjoint not_False_eq_True)
    then show "UART_recvlines (end_of_line s) (push_bit UART_LINE_BITS row + i)
                 = UART_recvlines s (push_bit UART_LINE_BITS row + i)"
      by (simp add: m slot_offset)
  qed
qed

lemma line_completed_saw_cr: "line_completed s (t \<lparr> saw_cr := b \<rparr>) = line_completed s t"
  by (simp add: line_completed_def slot_text_def)

lemma recv_plain:
  "c \<noteq> CR \<Longrightarrow> c \<noteq> LF \<Longrightarrow>
   UART_HandleRecvChar_ISR c s = (add_char c s) \<lparr> saw_cr := False \<rparr>"
  by (auto simp: UART_HandleRecvChar_ISR_def)

lemma recv_CR_acted:
  "\<not> (uart_filter_empty_lines s \<and> recvcharptr s = 0) \<Longrightarrow>
   UART_HandleRecvChar_ISR CR s = (end_of_line s) \<lparr> saw_cr := True \<rparr>"
  by (auto simp: UART_HandleRecvChar_ISR_def CR_LF_distinct)

lemma recv_CR_filtered:
  "uart_filter_empty_lines s \<Longrightarrow> recvcharptr s = 0 \<Longrightarrow>
   UART_HandleRecvChar_ISR CR s = s \<lparr> saw_cr := True \<rparr>"
  by (simp add: UART_HandleRecvChar_ISR_def CR_LF_distinct)

lemma uart_feed_snoc:
  "uart_feed (cs @ [c]) s = UART_HandleRecvChar_ISR c (uart_feed cs s)"
  by (simp add: uart_feed_def uart_run_def)

lemma uart_feed_snoc2:
  "uart_feed (cs @ [c, d]) s
     = UART_HandleRecvChar_ISR d (UART_HandleRecvChar_ISR c (uart_feed cs s))"
  by (simp add: uart_feed_def uart_run_def)

text \<open>Characters that are not terminators accumulate in the in-progress slot.\<close>

lemma uart_feed_plain:
  assumes "CR \<notin> set line" and "LF \<notin> set line"
    and "recvcharptr s + length line \<le> UART_LINE_SIZE"
  shows "rowcount (uart_feed line s) = rowcount s
       \<and> oldestrow (uart_feed line s) = oldestrow s
       \<and> newestrow (uart_feed line s) = newestrow s
       \<and> uart_filter_empty_lines (uart_feed line s) = uart_filter_empty_lines s
       \<and> recvcharptr (uart_feed line s) = recvcharptr s + length line
       \<and> saw_cr (uart_feed line s) = (line = [] \<and> saw_cr s)
       \<and> (\<forall>i<length line.
             UART_recvlines (uart_feed line s)
               (push_bit UART_LINE_BITS (newestrow s) + (recvcharptr s + i)) = line ! i)"
  using assms
proof (induct line rule: rev_induct)
  case Nil
  show ?case by (simp add: uart_feed_def uart_run_def)
next
  case (snoc x xs)
  define t where "t = uart_feed xs s"
  have x: "x \<noteq> CR" "x \<noteq> LF"
    using snoc.prems by auto
  have ih: "rowcount t = rowcount s" "oldestrow t = oldestrow s" "newestrow t = newestrow s"
    "uart_filter_empty_lines t = uart_filter_empty_lines s"
    "recvcharptr t = recvcharptr s + length xs"
    "\<And>i. i < length xs \<Longrightarrow>
       UART_recvlines t (push_bit UART_LINE_BITS (newestrow s) + (recvcharptr s + i)) = xs ! i"
    using snoc unfolding t_def by simp_all
  have lt: "recvcharptr t < UART_LINE_SIZE"
    using snoc.prems(3) ih(5) by simp
  have r: "uart_feed (xs @ [x]) s =
      t \<lparr> UART_recvlines :=
            (UART_recvlines t)
              (push_bit UART_LINE_BITS (newestrow s) + (recvcharptr s + length xs) := x),
          recvcharptr := recvcharptr s + length xs + 1, saw_cr := False \<rparr>"
    unfolding uart_feed_snoc t_def [symmetric] recv_plain [OF x] add_char_def
    using lt by (simp add: ih)
  show ?case
    unfolding r using ih by (simp add: nth_append)
qed

lemma complete_rows_grow:
  assumes "uart_inv s" and "rowcount t = rowcount s + 1" and "oldestrow t = oldestrow s"
  shows "complete_rows t = complete_rows s @ [newestrow s]"
  using assms by (simp add: complete_rows_def and_line_count_Suc uart_inv_rows)

lemma feed_line_CR:
  assumes "recvcharptr s = 0" and "rowcount s < UART_LINE_COUNT - 1"
    and "length line < UART_LINE_SIZE"
    and "NUL \<notin> set line" and "CR \<notin> set line" and "LF \<notin> set line"
    and "\<not> (uart_filter_empty_lines s \<and> line = [])"
  shows "slot_text (uart_feed (line @ [CR]) s) (newestrow s) = line"
    and "rowcount (uart_feed (line @ [CR]) s) = rowcount s + 1"
    and "newestrow (uart_feed (line @ [CR]) s) = (newestrow s + 1) AND (UART_LINE_COUNT - 1)"
    and "recvcharptr (uart_feed (line @ [CR]) s) = 0"
    and "slot_text (uart_feed (line @ [CR]) s) ((newestrow s + 1) AND (UART_LINE_COUNT - 1)) = []"
    and "uart_feed (line @ [CR, LF]) s = (uart_feed (line @ [CR]) s) \<lparr> saw_cr := False \<rparr>"
    and "(line = [] \<longrightarrow> \<not> saw_cr s) \<Longrightarrow>
         uart_feed (line @ [LF]) s = (uart_feed (line @ [CR]) s) \<lparr> saw_cr := False \<rparr>"
proof -
  define t where "t = uart_feed line s"
  have "recvcharptr s + length line \<le> UART_LINE_SIZE"
    using assms(1,3) by simp
  from uart_feed_plain [OF assms(5,6) this]
  have p: "rowcount t = rowcount s" "oldestrow t = oldestrow s" "newestrow t = newestrow s"
    "uart_filter_empty_lines t = uart_filter_empty_lines s"
    "recvcharptr t = length line" "saw_cr t = (line = [] \<and> saw_cr s)"
    "\<And>i. i < length line \<Longrightarrow>
       UART_recvlines t (push_bit UART_LINE_BITS (newestrow s) + i) = line ! i"
    unfolding t_def using assms(1) by simp_all
  have acted: "\<not> (uart_filter_empty_lines t \<and> recvcharptr t = 0)"
    using assms(7) by (simp add: p)
  have r: "uart_feed (line @ [CR]) s = (end_of_line t) \<lparr> saw_cr := True \<rparr>"
    unfolding uart_feed_snoc t_def [symmetric] by (rule recv_CR_acted [OF acted])
  have "rowcount t < UART_LINE_COUNT - 1"
    using assms(2) by (simp add: p)
  from end_of_line_advance(1) [OF this]
  have c: "line_completed t (end_of_line t)" .
  have m: "min (length line) (UART_LINE_SIZE - 1) = length line"
    using assms(3) by simp
  have "map (\<lambda>i. UART_recvlines t (push_bit UART_LINE_BITS (newestrow s) + i)) [0..<length line]
      = map (\<lambda>i. line ! i) [0..<length line]"
    by (rule map_cong [OF refl]) (simp add: p)
  also have "\<dots> = line"
    by (rule map_nth)
  finally have "slot_text (end_of_line t) (newestrow s) = takeWhile (\<lambda>c. c \<noteq> NUL) line"
    using line_completedD(5) [OF c] unfolding p m by simp
  also have "\<dots> = line"
    using assms(4) by (auto simp: takeWhile_eq_all_conv)
  finally show "slot_text (uart_feed (line @ [CR]) s) (newestrow s) = line"
    unfolding r by (simp add: uart_fields_saw_cr)
  show "rowcount (uart_feed (line @ [CR]) s) = rowcount s + 1"
    "newestrow (uart_feed (line @ [CR]) s) = (newestrow s + 1) AND (UART_LINE_COUNT - 1)"
    "recvcharptr (uart_feed (line @ [CR]) s) = 0"
    using line_completedD(1,3,4) [OF c] unfolding r uart_fields_saw_cr p by simp_all
  have nw: "newestrow (end_of_line t) = (newestrow s + 1) AND (UART_LINE_COUNT - 1)"
    using line_completedD(3) [OF c] unfolding p .
  show "slot_text (uart_feed (line @ [CR]) s)
      ((newestrow s + 1) AND (UART_LINE_COUNT - 1)) = []"
    using line_completedD(6) [OF c] unfolding r uart_fields_saw_cr nw .
  show "uart_feed (line @ [CR, LF]) s = (uart_feed (line @ [CR]) s) \<lparr> saw_cr := False \<rparr>"
    unfolding uart_feed_snoc2 uart_feed_snoc by (rule recv_CR_LF)
  show "uart_feed (line @ [LF]) s = (uart_feed (line @ [CR]) s) \<lparr> saw_cr := False \<rparr>"
    if "line = [] \<longrightarrow> \<not> saw_cr s"
  proof -
    have "\<not> saw_cr t" using that by (simp add: p)
    then show ?thesis
      unfolding uart_feed_snoc t_def [symmetric] by (rule recv_LF_alone)
  qed
qed

text \<open>
  Claim C6. A line feed that arrives right after a carriage return is ignored, whether
  or not empty lines are filtered; a line feed that does not follow a carriage return
  does exactly what a carriage return does; so CR LF together do what CR alone does.
  When a terminator is acted on (the line is not a filtered empty one) and the buffer is
  not full, a lone CR, a lone LF and the pair CR LF each complete exactly one line; in
  every state CR LF completes at most one.

  Completing a line means what \<open>line_completed\<close> says: the in-progress slot is
  null-terminated at the character cursor and holds the characters received before it,
  the write cursor moves to the next slot, which starts empty, and the character cursor
  returns to the start. No other slot changes and, in a state that satisfies the
  invariant, the completed slot joins the unread lines as the newest one. A terminator
  on a filtered empty line changes nothing but the carriage-return flag. A character
  other than CR and LF completes no line. End to end: from the start of a slot, a line
  of fewer than \<open>UART_LINE_SIZE\<close> characters, none of them NUL, CR or LF, followed
  by CR or by CR LF, is stored as that slot's string; followed by LF alone it is too,
  unless the line is empty and a CR came just before.
\<close>

theorem C6_line_terminators:
  "(saw_cr s \<longrightarrow> UART_HandleRecvChar_ISR LF s = s \<lparr> saw_cr := False \<rparr>)
   \<and> (\<not> saw_cr s \<longrightarrow>
        UART_HandleRecvChar_ISR LF s = (UART_HandleRecvChar_ISR CR s) \<lparr> saw_cr := False \<rparr>)
   \<and> uart_feed [CR, LF] s = (UART_HandleRecvChar_ISR CR s) \<lparr> saw_cr := False \<rparr>
   \<and> (\<not> (uart_filter_empty_lines s \<and> recvcharptr s = 0) \<and> rowcount s < UART_LINE_COUNT - 1 \<longrightarrow>
        rowcount (UART_HandleRecvChar_ISR CR s) = rowcount s + 1
        \<and> (\<not> saw_cr s \<longrightarrow> rowcount (UART_HandleRecvChar_ISR LF s) = rowcount s + 1)
        \<and> rowcount (uart_feed [CR, LF] s) = rowcount s + 1)
   \<and> rowcount (uart_feed [CR, LF] s) \<le> rowcount s + 1
   \<and> (\<not> (uart_filter_empty_lines s \<and> recvcharptr s = 0) \<and> rowcount s < UART_LINE_COUNT - 1 \<longrightarrow>
        line_completed s (UART_HandleRecvChar_ISR CR s)
        \<and> (\<not> saw_cr s \<longrightarrow> line_completed s (UART_HandleRecvChar_ISR LF s))
        \<and> line_completed s (uart_feed [CR, LF] s)
        \<and> (\<forall>row. row \<noteq> newestrow s \<and> row \<noteq> (newestrow s + 1) AND (UART_LINE_COUNT - 1) \<longrightarrow>
              slot_text (UART_HandleRecvChar_ISR CR s) row = slot_text s row)
        \<and> (uart_inv s \<longrightarrow>
              complete_rows (UART_HandleRecvChar_ISR CR s) = complete_rows s @ [newestrow s]))
   \<and> (uart_filter_empty_lines s \<and> recvcharptr s = 0 \<longrightarrow>
        UART_HandleRecvChar_ISR CR s = s \<lparr> saw_cr := True \<rparr>
        \<and> (\<not> saw_cr s \<longrightarrow> UART_HandleRecvChar_ISR LF s = s)
        \<and> uart_feed [CR, LF] s = s \<lparr> saw_cr := False \<rparr>)
   \<and> (c \<noteq> CR \<and> c \<noteq> LF \<longrightarrow>
        rowcount (UART_HandleRecvChar_ISR c s) = rowcount s
        \<and> oldestrow (UART_HandleRecvChar_ISR c s) = oldestrow s
        \<and> newestrow (UART_HandleRecvChar_ISR c s) = newestrow s)
   \<and> (recvcharptr s = 0 \<and> rowcount s < UART_LINE_COUNT - 1 \<and> length line < UART_LINE_SIZE
        \<and> NUL \<notin> set line \<and> CR \<notin> set line \<and> LF \<notin> set line
        \<and> \<not> (uart_filter_empty_lines s \<and> line = []) \<longrightarrow>
        slot_text (uart_feed (line @ [CR]) s) (newestrow s) = line
        \<and> rowcount (uart_feed (line @ [CR]) s) = rowcount s + 1
        \<and> newestrow (uart_feed (line @ [CR]) s) = (newestrow s + 1) AND (UART_LINE_COUNT - 1)
        \<and> recvcharptr (uart_feed (line @ [CR]) s) = 0
        \<and> slot_text (uart_feed (line @ [CR]) s) ((newestrow s + 1) AND (UART_LINE_COUNT - 1)) = []
        \<and> uart_feed (line @ [CR, LF]) s = (uart_feed (line @ [CR]) s) \<lparr> saw_cr := False \<rparr>
        \<and> ((line = [] \<longrightarrow> \<not> saw_cr s) \<longrightarrow>
              uart_feed (line @ [LF]) s = (uart_feed (line @ [CR]) s) \<lparr> saw_cr := False \<rparr>))"
proof -
  have o1: "saw_cr s \<longrightarrow> UART_HandleRecvChar_ISR LF s = s \<lparr> saw_cr := False \<rparr>"
    by (simp add: recv_LF_after_CR)
  have o2: "\<not> saw_cr s \<longrightarrow>
        UART_HandleRecvChar_ISR LF s = (UART_HandleRecvChar_ISR CR s) \<lparr> saw_cr := False \<rparr>"
    by (simp add: recv_LF_alone)
  have o3: "uart_feed [CR, LF] s = (UART_HandleRecvChar_ISR CR s) \<lparr> saw_cr := False \<rparr>"
    by (simp add: uart_feed_two recv_CR_LF)
  have o4: "\<not> (uart_filter_empty_lines s \<and> recvcharptr s = 0) \<and> rowcount s < UART_LINE_COUNT - 1 \<longrightarrow>
        rowcount (UART_HandleRecvChar_ISR CR s) = rowcount s + 1
        \<and> (\<not> saw_cr s \<longrightarrow> rowcount (UART_HandleRecvChar_ISR LF s) = rowcount s + 1)
        \<and> rowcount (uart_feed [CR, LF] s) = rowcount s + 1"
    by (simp add: recv_LF_alone uart_feed_two recv_CR_LF rowcount_recv_CR)
  have o5: "rowcount (uart_feed [CR, LF] s) \<le> rowcount s + 1"
    by (simp add: uart_feed_two recv_CR_LF rowcount_recv_CR)
  have n1: "\<not> (uart_filter_empty_lines s \<and> recvcharptr s = 0) \<and> rowcount s < UART_LINE_COUNT - 1 \<longrightarrow>
        line_completed s (UART_HandleRecvChar_ISR CR s)
        \<and> (\<not> saw_cr s \<longrightarrow> line_completed s (UART_HandleRecvChar_ISR LF s))
        \<and> line_completed s (uart_feed [CR, LF] s)
        \<and> (\<forall>row. row \<noteq> newestrow s \<and> row \<noteq> (newestrow s + 1) AND (UART_LINE_COUNT - 1) \<longrightarrow>
              slot_text (UART_HandleRecvChar_ISR CR s) row = slot_text s row)
        \<and> (uart_inv s \<longrightarrow>
              complete_rows (UART_HandleRecvChar_ISR CR s) = complete_rows s @ [newestrow s])"
  proof (intro impI, elim conjE)
    assume a: "\<not> (uart_filter_empty_lines s \<and> recvcharptr s = 0)"
      and b: "rowcount s < UART_LINE_COUNT - 1"
    note r = recv_CR_acted [OF a]
    note e = end_of_line_advance [OF b]
    have c: "line_completed s (UART_HandleRecvChar_ISR CR s)"
      unfolding r line_completed_saw_cr by (rule e(1))
    have l: "line_completed s (UART_HandleRecvChar_ISR LF s)" if "\<not> saw_cr s"
      unfolding recv_LF_alone [OF that] line_completed_saw_cr by (rule c)
    have p: "line_completed s (uart_feed [CR, LF] s)"
      unfolding o3 line_completed_saw_cr by (rule c)
    have q: "slot_text (UART_HandleRecvChar_ISR CR s) row = slot_text s row"
      if "row \<noteq> newestrow s \<and> row \<noteq> (newestrow s + 1) AND (UART_LINE_COUNT - 1)" for row
      unfolding r uart_fields_saw_cr using that by (intro e(2)) simp_all
    have g: "complete_rows (UART_HandleRecvChar_ISR CR s) = complete_rows s @ [newestrow s]"
      if "uart_inv s"
      by (rule complete_rows_grow [OF that line_completedD(1,2) [OF c]])
    from c l p q g
    show "line_completed s (UART_HandleRecvChar_ISR CR s)
        \<and> (\<not> saw_cr s \<longrightarrow> line_completed s (UART_HandleRecvChar_ISR LF s))
        \<and> line_completed s (uart_feed [CR, LF] s)
        \<and> (\<forall>row. row \<noteq> newestrow s \<and> row \<noteq> (newestrow s + 1) AND (UART_LINE_COUNT - 1) \<longrightarrow>
              slot_text (UART_HandleRecvChar_ISR CR s) row = slot_text s row)
        \<and> (uart_inv s \<longrightarrow>
              complete_rows (UART_HandleRecvChar_ISR CR s) = complete_rows s @ [newestrow s])"
      by blast
  qed
  have n2: "uart_filter_empty_lines s \<and> recvcharptr s = 0 \<longrightarrow>
        UART_HandleRecvChar_ISR CR s = s \<lparr> saw_cr := True \<rparr>
        \<and> (\<not> saw_cr s \<longrightarrow> UART_HandleRecvChar_ISR LF s = s)
        \<and> uart_feed [CR, LF] s = s \<lparr> saw_cr := False \<rparr>"
    unfolding o3 by (simp add: recv_CR_filtered recv_LF_alone)
  have n3: "c \<noteq> CR \<and> c \<noteq> LF \<longrightarrow>
        rowcount (UART_HandleRecvChar_ISR c s) = rowcount s
        \<and> oldestrow (UART_HandleRecvChar_ISR c s) = oldestrow s
        \<and> newestrow (UART_HandleRecvChar_ISR c s) = newestrow s"
    by (simp add: recv_plain add_char_fields)
  have n4: "recvcharptr s = 0 \<and> rowcount s < UART_LINE_COUNT - 1 \<and> length line < UART_LINE_SIZE
        \<and> NUL \<notin> set line \<and> CR \<notin> set line \<and> LF \<notin> set line
        \<and> \<not> (uart_filter_empty_lines s \<and> line = []) \<longrightarrow>
        slot_text (uart_feed (line @ [CR]) s) (newestrow s) = line
        \<and> rowcount (uart_feed (line @ [CR]) s) = rowcount s + 1
        \<and> newestrow (uart_feed (line @ [CR]) s) = (newestrow s + 1) AND (UART_LINE_COUNT - 1)
        \<and> recvcharptr (uart_feed (line @ [CR]) s) = 0
        \<and> slot_text (uart_feed (line @ [CR]) s) ((newestrow s + 1) AND (UART_LINE_COUNT - 1)) = []
        \<and> uart_feed (line @ [CR, LF]) s = (uart_feed (line @ [CR]) s) \<lparr> saw_cr := False \<rparr>
        \<and> ((line = [] \<longrightarrow> \<not> saw_cr s) \<longrightarrow>
              uart_feed (line @ [LF]) s = (uart_feed (line @ [CR]) s) \<lparr> saw_cr := False \<rparr>)"
  proof (intro impI, elim conjE)
    assume h: "recvcharptr s = 0" "rowcount s < UART_LINE_COUNT - 1"
      "length line < UART_LINE_SIZE" "NUL \<notin> set line" "CR \<notin> set line" "LF \<notin> set line"
      "\<not> (uart_filter_empty_lines s \<and> line = [])"
    note f = feed_line_CR [OF h]
    show "slot_text (uart_feed (line @ [CR]) s) (newestrow s) = line
        \<and> rowcount (uart_feed (line @ [CR]) s) = rowcount s + 1
        \<and> newestrow (uart_feed (line @ [CR]) s) = (newestrow s + 1) AND (UART_LINE_COUNT - 1)
        \<and> recvcharptr (uart_feed (line @ [CR]) s) = 0
        \<and> slot_text (uart_feed (line @ [CR]) s) ((newestrow s + 1) AND (UART_LINE_COUNT - 1)) = []
        \<and> uart_feed (line @ [CR, LF]) s = (uart_feed (line @ [CR]) s) \<lparr> saw_cr := False \<rparr>
        \<and> ((line = [] \<longrightarrow> \<not> saw_cr s) \<longrightarrow>
              uart_feed (line @ [LF]) s = (uart_feed (line @ [CR]) s) \<lparr> saw_cr := False \<rparr>)"
      using f by blast
  qed
  show ?thesis
    by (intro conjI) (rule o1 o2 o3 o4 o5 n1 n2 n3 n4)+
qed

theorem C6_line_terminators_witness:
  "saw_cr example_one_line
   \<and> UART_HandleRecvChar_ISR LF example_one_line = example_one_line \<lparr> saw_cr := False \<rparr>
   \<and> \<not> saw_cr example_partial
   \<and> \<not> (uart_filter_empty_lines example_partial \<and> recvcharptr example_partial = 0)
   \<and> rowcount example_partial < UART_LINE_COUNT - 1
   \<and> rowcount (UART_HandleRecvChar_ISR CR example_partial) = 1
   \<and> rowcount (UART_HandleRecvChar_ISR LF example_partial) = 1
   \<and> rowcount (uart_feed [CR, LF] example_partial) = 1
   \<and> line_completed example_partial (UART_HandleRecvChar_ISR CR example_partial)
   \<and> line_completed example_partial (UART_HandleRecvChar_ISR LF example_partial)
   \<and> line_completed example_partial (uart_feed [CR, LF] example_partial)
   \<and> newestrow example_partial = 0
   \<and> slot_text (UART_HandleRecvChar_ISR CR example_partial) 0 = ''ab''
   \<and> newestrow (UART_HandleRecvChar_ISR CR example_partial) = 1
   \<and> slot_text (UART_HandleRecvChar_ISR CR example_partial) 1 = []
   \<and> slot_text (UART_HandleRecvChar_ISR CR example_partial) 5 = slot_text example_partial 5
   \<and> uart_inv example_partial
   \<and> complete_rows (UART_HandleRecvChar_ISR CR example_partial) = [0]
   \<and> uart_filter_empty_lines example_filtering
   \<and> recvcharptr example_filtering = 0
   \<and> UART_HandleRecvChar_ISR CR example_filtering = example_filtering \<lparr> saw_cr := True \<rparr>
   \<and> \<not> saw_cr example_filtering
   \<and> UART_HandleRecvChar_ISR LF example_filtering = example_filtering
   \<and> uart_feed [CR, LF] example_filtering = example_filtering \<lparr> saw_cr := False \<rparr>
   \<and> CHR ''x'' \<noteq> CR \<and> CHR ''x'' \<noteq> LF
   \<and> rowcount (UART_HandleRecvChar_ISR CHR ''x'' example_partial) = 0
   \<and> newestrow example_one_line = 1
   \<and> slot_text (uart_feed (''cd'' @ [CR]) example_one_line) 1 = ''cd''
   \<and> slot_text (uart_feed (''cd'' @ [CR]) example_one_line) 0 = ''ab''
   \<and> rowcount (uart_feed (''cd'' @ [CR]) example_one_line) = 2
   \<and> newestrow (uart_feed (''cd'' @ [CR]) example_one_line) = 2
   \<and> slot_text (uart_feed (''cd'' @ [CR]) example_one_line) 2 = []
   \<and> uart_feed (''cd'' @ [CR, LF]) example_one_line
       = (uart_feed (''cd'' @ [CR]) example_one_line) \<lparr> saw_cr := False \<rparr>
   \<and> uart_feed (''cd'' @ [LF]) example_one_line
       = (uart_feed (''cd'' @ [CR]) example_one_line) \<lparr> saw_cr := False \<rparr>"
proof -
  note T = C6_line_terminators
  define t where "t = uart_feed ''cd'' example_one_line"
  have a1: "saw_cr example_one_line"
    by code_simp
  have a2: "newestrow example_one_line = 1"
    "(newestrow example_one_line + 1) AND (UART_LINE_COUNT - 1) = 2"
    "rowcount example_one_line + 1 = 2"
    by code_simp+
  have b1: "\<not> saw_cr example_partial"
    by code_simp
  have b2: "\<not> (uart_filter_empty_lines example_partial \<and> recvcharptr example_partial = 0)
      \<and> rowcount example_partial < UART_LINE_COUNT - 1"
    by code_simp
  have b3: "newestrow example_partial = 0" "rowcount example_partial + 1 = 1"
    "(newestrow example_partial + 1) AND (UART_LINE_COUNT - 1) = 1"
    "rowcount example_partial = 0"
    by code_simp+
  have b4: "takeWhile (\<lambda>c. c \<noteq> NUL)
      (map (\<lambda>i. UART_recvlines example_partial
                  (push_bit UART_LINE_BITS (newestrow example_partial) + i))
         [0..<min (recvcharptr example_partial) (UART_LINE_SIZE - 1)]) = ''ab''"
    by code_simp
  have b5: "5 \<noteq> newestrow example_partial
      \<and> 5 \<noteq> (newestrow example_partial + 1) AND (UART_LINE_COUNT - 1)"
    by code_simp
  have b6: "uart_inv example_partial"
    by code_simp
  have b7: "complete_rows example_partial @ [newestrow example_partial] = [0]"
    by code_simp
  have f1: "uart_filter_empty_lines example_filtering \<and> recvcharptr example_filtering = 0"
    by code_simp
  have x1: "CHR ''x'' \<noteq> CR \<and> CHR ''x'' \<noteq> LF"
    by code_simp
  have d1: "recvcharptr example_one_line = 0 \<and> rowcount example_one_line < UART_LINE_COUNT - 1
      \<and> length ''cd'' < UART_LINE_SIZE
      \<and> NUL \<notin> set ''cd'' \<and> CR \<notin> set ''cd'' \<and> LF \<notin> set ''cd''
      \<and> \<not> (uart_filter_empty_lines example_one_line \<and> ''cd'' = [])"
    by code_simp
  have t1: "\<not> (uart_filter_empty_lines t \<and> recvcharptr t = 0) \<and> rowcount t < UART_LINE_COUNT - 1"
    unfolding t_def by code_simp
  have t2: "0 \<noteq> newestrow t \<and> 0 \<noteq> (newestrow t + 1) AND (UART_LINE_COUNT - 1)"
    unfolding t_def by code_simp
  have t3: "slot_text t 0 = ''ab''"
    unfolding t_def by code_simp
  have t4: "UART_HandleRecvChar_ISR CR t = uart_feed (''cd'' @ [CR]) example_one_line"
    unfolding t_def by (simp only: uart_feed_snoc)
  note T1 = T [where s = example_one_line and c = "CHR ''x''" and line = "''cd''"]
  note T0 = T [where s = example_partial and c = "CHR ''x''" and line = "''cd''"]
  note Tf = T [where s = example_filtering and c = "CHR ''x''" and line = "''cd''"]
  note Tt = T [where s = t and c = "CHR ''x''" and line = "''cd''"]
  have r1: "UART_HandleRecvChar_ISR LF example_one_line = example_one_line \<lparr> saw_cr := False \<rparr>"
    using T1 [THEN conjunct1] a1 by (rule mp)
  have r2: "UART_HandleRecvChar_ISR LF example_partial
      = (UART_HandleRecvChar_ISR CR example_partial) \<lparr> saw_cr := False \<rparr>"
    using T0 [THEN conjunct2, THEN conjunct1] b1 by (rule mp)
  have r4: "rowcount (UART_HandleRecvChar_ISR CR example_partial) = 1
      \<and> rowcount (UART_HandleRecvChar_ISR LF example_partial) = 1
      \<and> rowcount (uart_feed [CR, LF] example_partial) = 1"
    using mp [OF T0 [THEN conjunct2, THEN conjunct2, THEN conjunct2, THEN conjunct1] b2] b1
    unfolding b3 by simp
  note n1 = mp [OF T0 [THEN conjunct2, THEN conjunct2, THEN conjunct2, THEN conjunct2,
        THEN conjunct2, THEN conjunct1] b2]
  have lc: "line_completed example_partial (UART_HandleRecvChar_ISR CR example_partial)"
    "line_completed example_partial (UART_HandleRecvChar_ISR LF example_partial)"
    "line_completed example_partial (uart_feed [CR, LF] example_partial)"
    using n1 b1 by simp_all
  have "slot_text (UART_HandleRecvChar_ISR CR example_partial) (newestrow example_partial) = ''ab''"
    using line_completedD(5) [OF lc(1)] by (simp only: b4)
  then have s0: "slot_text (UART_HandleRecvChar_ISR CR example_partial) 0 = ''ab''"
    by (simp only: b3)
  have nw: "newestrow (UART_HandleRecvChar_ISR CR example_partial) = 1"
    using line_completedD(3) [OF lc(1)] by (simp only: b3(3))
  have s1: "slot_text (UART_HandleRecvChar_ISR CR example_partial) 1 = []"
    using line_completedD(6) [OF lc(1)] by (simp only: nw)
  have s5: "slot_text (UART_HandleRecvChar_ISR CR example_partial) 5 = slot_text example_partial 5"
    using n1 b5 by blast
  have cr: "complete_rows (UART_HandleRecvChar_ISR CR example_partial) = [0]"
    using n1 b6 by (simp only: b7)
  have fl: "UART_HandleRecvChar_ISR CR example_filtering = example_filtering \<lparr> saw_cr := True \<rparr>"
    using mp [OF Tf [THEN conjunct2, THEN conjunct2, THEN conjunct2, THEN conjunct2,
        THEN conjunct2, THEN conjunct2, THEN conjunct1] f1]
    by (rule conjunct1)
  have f2: "\<not> saw_cr example_filtering"
    by code_simp
  have fm: "UART_HandleRecvChar_ISR LF example_filtering = example_filtering"
    "uart_feed [CR, LF] example_filtering = example_filtering \<lparr> saw_cr := False \<rparr>"
    using mp [OF Tf [THEN conjunct2, THEN conjunct2, THEN conjunct2, THEN conjunct2,
        THEN conjunct2, THEN conjunct2, THEN conjunct1] f1] f2
    by blast+
  have pl: "rowcount (UART_HandleRecvChar_ISR CHR ''x'' example_partial) = 0"
    using mp [OF T0 [THEN conjunct2, THEN conjunct2, THEN conjunct2, THEN conjunct2,
        THEN conjunct2, THEN conjunct2, THEN conjunct2, THEN conjunct1] x1]
    by (simp only: b3)
  note n4 = mp [OF T1 [THEN conjunct2, THEN conjunct2, THEN conjunct2, THEN conjunct2,
        THEN conjunct2, THEN conjunct2, THEN conjunct2, THEN conjunct2] d1]
  have e1: "slot_text (uart_feed (''cd'' @ [CR]) example_one_line) 1 = ''cd''"
    "rowcount (uart_feed (''cd'' @ [CR]) example_one_line) = 2"
    "newestrow (uart_feed (''cd'' @ [CR]) example_one_line) = 2"
    "slot_text (uart_feed (''cd'' @ [CR]) example_one_line) 2 = []"
    "uart_feed (''cd'' @ [CR, LF]) example_one_line
       = (uart_feed (''cd'' @ [CR]) example_one_line) \<lparr> saw_cr := False \<rparr>"
    "uart_feed (''cd'' @ [LF]) example_one_line
       = (uart_feed (''cd'' @ [CR]) example_one_line) \<lparr> saw_cr := False \<rparr>"
    using n4 [unfolded a2(2,3)] unfolding a2(1) by simp_all
  have "slot_text (UART_HandleRecvChar_ISR CR t) 0 = slot_text t 0"
    using mp [OF Tt [THEN conjunct2, THEN conjunct2, THEN conjunct2, THEN conjunct2,
        THEN conjunct2, THEN conjunct1] t1] t2
    by blast
  then have e2: "slot_text (uart_feed (''cd'' @ [CR]) example_one_line) 0 = ''ab''"
    unfolding t4 t3 .
  show ?thesis
    using a1 r1 b1 b2 r4 lc b3(1) s0 nw s1 s5 b6 cr f1 fl f2 fm x1 pl a2(1) e1 e2
    by (intro conjI) simp_all
qed

section \<open>Properties of the analog conversion scheduler\<close>

subsection \<open>The loops\<close>

lemma poll_body_skip:
  "\<not> ADC_needs_conversion s x \<Longrightarrow> poll_body r x (s, cnt, nx) = (s, cnt, nx)"
  by (simp add: poll_body_def)

lemma poll_body_first:
  "ADC_needs_conversion s x \<Longrightarrow> poll_body r x (s, 0, nx) = (store_result r x s, 1, nx)"
  by (simp add: poll_body_def)

lemma poll_body_second:
  "ADC_needs_conversion s x \<Longrightarrow> poll_body r x (s, 1, nx) = (s, 2, x)"
  by (simp add: poll_body_def)

lemma poll_body_many:
  "ADC_needs_conversion s x \<Longrightarrow> 2 \<le> cnt \<Longrightarrow> poll_body r x (s, cnt, nx) = (s, cnt + 1, nx)"
  by (simp add: poll_body_def)

lemma poll_fold_many:
  "2 \<le> cnt \<Longrightarrow>
   fold (poll_body r) xs (s, cnt, nx)
     = (s, cnt + length (filter (ADC_needs_conversion s) xs), nx)"
proof (induction xs arbitrary: cnt)
  case Nil
  then show ?case by simp
next
  case (Cons x xs)
  show ?case
  proof (cases "ADC_needs_conversion s x")
    case True
    then show ?thesis
      using Cons.prems Cons.IH [of "cnt + 1"] by (simp add: poll_body_many)
  next
    case False
    then show ?thesis
      using Cons.prems Cons.IH [of cnt] by (simp add: poll_body_skip)
  qed
qed

lemma poll_fold_second:
  "fold (poll_body r) xs (s, 1, nx)
     = (s, 1 + length (filter (ADC_needs_conversion s) xs),
        case filter (ADC_needs_conversion s) xs of [] \<Rightarrow> nx | c # _ \<Rightarrow> c)"
proof (induction xs)
  case Nil
  then show ?case by simp
next
  case (Cons x xs)
  show ?case
  proof (cases "ADC_needs_conversion s x")
    case True
    have "fold (poll_body r) (x # xs) (s, 1, nx) = fold (poll_body r) xs (s, 2, x)"
      by (simp only: fold_simps poll_body_second [OF True])
    also have "\<dots> = (s, 2 + length (filter (ADC_needs_conversion s) xs), x)"
      by (rule poll_fold_many) simp
    finally show ?thesis
      using True by simp
  next
    case False
    then show ?thesis
      using Cons.IH by (simp add: poll_body_skip)
  qed
qed

lemma needs_store_result:
  "c \<notin> set xs \<Longrightarrow>
   filter (ADC_needs_conversion (store_result r c s)) xs = filter (ADC_needs_conversion s) xs"
  by (intro filter_cong) (auto simp: store_result_def)

lemma poll_fold_first:
  "distinct xs \<Longrightarrow>
   fold (poll_body r) xs (s, 0, nx)
     = (case filter (ADC_needs_conversion s) xs of
          [] \<Rightarrow> (s, 0, nx)
        | c # rest \<Rightarrow> (store_result r c s, 1 + length rest,
                       case rest of [] \<Rightarrow> nx | d # _ \<Rightarrow> d))"
proof (induction xs)
  case Nil
  then show ?case by simp
next
  case (Cons x xs)
  show ?case
  proof (cases "ADC_needs_conversion s x")
    case True
    have "fold (poll_body r) (x # xs) (s, 0, nx)
        = fold (poll_body r) xs (store_result r x s, 1, nx)"
      by (simp only: fold_simps poll_body_first [OF True])
    also note poll_fold_second
    finally show ?thesis
      using True Cons.prems by (simp add: needs_store_result)
  next
    case False
    then show ?thesis
      using Cons by (simp add: poll_body_skip)
  qed
qed

lemma start_fold:
  "fold (start_body m) xs (s, nf, fc)
     = (s \<lparr> ADC_needs_conversion :=
              (\<lambda>c. if c \<in> set xs \<and> m AND push_bit c 1 \<noteq> 0 then True
                    else ADC_needs_conversion s c) \<rparr>,
        nf \<and> filter (\<lambda>c. m AND push_bit c 1 \<noteq> 0) xs = [],
        if nf then (case filter (\<lambda>c. m AND push_bit c 1 \<noteq> 0) xs of [] \<Rightarrow> fc | c # _ \<Rightarrow> c)
        else fc)"
proof (induction xs arbitrary: s nf fc)
  case Nil
  then show ?case by simp
next
  case (Cons x xs)
  have "start_body m x (s, nf, fc)
      = (if m AND push_bit x 1 \<noteq> 0
         then (s \<lparr> ADC_needs_conversion := (ADC_needs_conversion s) (x := True) \<rparr>,
               False, if nf then x else fc)
         else (s, nf, fc))"
    by (simp add: start_body_def)
  then show ?case
    by (auto simp: Cons.IH fun_eq_iff)
qed

lemma read_body_simps:
  "read_body x (s, Some v) = (s, Some v)"
  "\<not> ADC_data_ready s x \<Longrightarrow> read_body x (s, None) = (s, None)"
  "ADC_data_ready s x \<Longrightarrow>
     read_body x (s, None)
       = (s \<lparr> ADC_data_ready := (ADC_data_ready s) (x := False) \<rparr>, Some (ADC_data s x, x))"
  by (simp_all add: read_body_def)

lemma read_fold_found: "fold read_body xs (s, Some v) = (s, Some v)"
  by (induction xs) (simp_all add: read_body_simps)

lemma read_fold:
  "fold read_body xs (s, None)
     = (case filter (ADC_data_ready s) xs of
          [] \<Rightarrow> (s, None)
        | c # _ \<Rightarrow> (s \<lparr> ADC_data_ready := (ADC_data_ready s) (c := False) \<rparr>,
                    Some (ADC_data s c, c)))"
  by (induction xs) (simp_all add: read_body_simps read_fold_found)

lemma reinit_fold:
  "xs \<noteq> [] \<Longrightarrow>
   fold reinit_body xs s
     = s \<lparr> ADC_idle := True,
           ADC_needs_conversion := (\<lambda>c. if c \<in> set xs then False else ADC_needs_conversion s c),
           ADC_data_ready := (\<lambda>c. if c \<in> set xs then False else ADC_data_ready s c),
           ADC_data := (\<lambda>c. if c \<in> set xs then 0 else ADC_data s c) \<rparr>"
proof (induction xs arbitrary: s)
  case Nil
  then show ?case by simp
next
  case (Cons x xs)
  show ?case
  proof (cases "xs = []")
    case True
    then show ?thesis
      by (simp add: reinit_body_def fun_eq_iff)
  next
    case False
    have "fold reinit_body (x # xs) s = fold reinit_body xs (reinit_body x s)"
      by (simp only: fold_simps)
    also note Cons.IH [OF False]
    also have "(reinit_body x s)
        \<lparr> ADC_idle := True,
          ADC_needs_conversion :=
            (\<lambda>c. if c \<in> set xs then False else ADC_needs_conversion (reinit_body x s) c),
          ADC_data_ready :=
            (\<lambda>c. if c \<in> set xs then False else ADC_data_ready (reinit_body x s) c),
          ADC_data := (\<lambda>c. if c \<in> set xs then 0 else ADC_data (reinit_body x s) c) \<rparr>
      = s \<lparr> ADC_idle := True,
            ADC_needs_conversion :=
              (\<lambda>c. if c \<in> set (x # xs) then False else ADC_needs_conversion s c),
            ADC_data_ready := (\<lambda>c. if c \<in> set (x # xs) then False else ADC_data_ready s c),
            ADC_data := (\<lambda>c. if c \<in> set (x # xs) then 0 else ADC_data s c) \<rparr>"
      by (simp add: reinit_body_def fun_eq_iff)
    finally show ?thesis .
  qed
qed
subsection \<open>The requested channels\<close>

lemma sorted_filter_upt: "sorted (filter P [0..<n])"
  using sorted_wrt_filter [of "(\<le>)" "[0..<n]" P] by simp

lemma requested_sorted: "sorted (requested m)" "distinct (requested m)"
  by (simp_all add: requested_def sorted_filter_upt)

lemma requested_range: "c \<in> set (requested m) \<Longrightarrow> c < ADC_CHANNEL_COUNT"
  by (simp add: requested_def)

lemma requested_mask:
  "filter (\<lambda>c. m AND push_bit c 1 \<noteq> 0) [0..<ADC_CHANNEL_COUNT] = requested m"
  unfolding requested_def
  by (rule filter_cong [OF refl]) (simp add: bit_iff_and_push_bit_not_eq_0)

lemma filter_member_upt:
  assumes "sorted xs" and "distinct xs" and "\<forall>c\<in>set xs. c < n"
  shows "filter (\<lambda>c. c \<in> set xs) [0..<n] = xs"
proof (rule sorted_distinct_set_unique)
  show "set (filter (\<lambda>c. c \<in> set xs) [0..<n]) = set xs"
    using assms(3) by auto
qed (use assms in \<open>simp_all add: sorted_filter_upt\<close>)

lemma pending_channels:
  assumes "adc_progress hw (requested m) k rs t"
  shows "filter (ADC_needs_conversion t) [0..<ADC_CHANNEL_COUNT] = drop k (requested m)"
proof -
  have "filter (ADC_needs_conversion t) [0..<ADC_CHANNEL_COUNT]
      = filter (\<lambda>c. c \<in> set (drop k (requested m))) [0..<ADC_CHANNEL_COUNT]"
    using assms by (intro filter_cong) (simp_all add: adc_progress_def)
  also have "\<dots> = drop k (requested m)"
    using requested_sorted [of m] requested_range [of _ m]
    by (intro filter_member_upt) (auto simp: sorted_wrt_drop dest: in_set_dropD)
  finally show ?thesis .
qed

lemma ready_channels:
  assumes "\<forall>c<ADC_CHANNEL_COUNT. ADC_data_ready t c = (c \<in> set (drop j (requested m)))"
  shows "filter (ADC_data_ready t) [0..<ADC_CHANNEL_COUNT] = drop j (requested m)"
proof -
  have "filter (ADC_data_ready t) [0..<ADC_CHANNEL_COUNT]
      = filter (\<lambda>c. c \<in> set (drop j (requested m))) [0..<ADC_CHANNEL_COUNT]"
    using assms by (intro filter_cong) simp_all
  also have "\<dots> = drop j (requested m)"
    using requested_sorted [of m] requested_range [of _ m]
    by (intro filter_member_upt) (auto simp: sorted_wrt_drop dest: in_set_dropD)
  finally show ?thesis .
qed

subsection \<open>One poll\<close>

lemma poll_fields:
  assumes p: "adc_progress hw (requested m) k rs t" and k: "k < length (requested m)"
  shows "ADC_HousekeepingPoll False r t =
           (store_result r (requested m ! k) t)
             \<lparr> ADC_idle := (k + 1 = length (requested m)),
               ADC_started := ADC_started t @ take 1 (drop (k + 1) (requested m)) \<rparr>"
proof -
  let ?c = "requested m ! k"
  have idle: "\<not> ADC_idle t"
    using p k by (simp add: adc_progress_def)
  have pend: "filter (ADC_needs_conversion t) [0..<ADC_CHANNEL_COUNT]
                = ?c # drop (k + 1) (requested m)"
    using pending_channels [OF p] k by (simp add: Cons_nth_drop_Suc)
  have f: "fold (poll_body r) [0..<ADC_CHANNEL_COUNT] (t, 0, 0)
             = (store_result r ?c t, 1 + length (drop (k + 1) (requested m)),
                case drop (k + 1) (requested m) of [] \<Rightarrow> 0 | d # _ \<Rightarrow> d)"
    by (simp add: poll_fold_first pend)
  show ?thesis
  proof (cases "drop (k + 1) (requested m)")
    case Nil
    then have "k + 1 = length (requested m)"
      using k by simp
    then show ?thesis
      using idle f Nil by (simp add: ADC_HousekeepingPoll_def store_result_def)
  next
    case (Cons d ds)
    then have "d \<in> set (requested m)"
      by (metis in_set_dropD list.set_intros(1))
    then have d: "d < ADC_CHANNEL_COUNT"
      by (rule requested_range)
    have "\<not> length (requested m) \<le> k + 1"
      using Cons by auto
    then have "k + 1 < length (requested m)" "k + 1 \<noteq> length (requested m)"
      by simp_all
    then show ?thesis
      using idle f Cons d
      by (simp add: ADC_HousekeepingPoll_def ADC_ReadFromChannel_def store_result_def)
  qed
qed
lemma poll_progress:
  assumes p: "adc_progress hw (requested m) k rs t" and k: "k < length (requested m)"
  shows "adc_progress hw (requested m) (k + 1) (rs @ [r]) (ADC_HousekeepingPoll False r t)"
proof -
  let ?ch = "requested m"
  let ?u = "ADC_HousekeepingPoll False r t"
  note u = poll_fields [OF p k, of r]
  note d = requested_sorted(2) [of m]
  have len: "length rs = k"
    using p by (simp add: adc_progress_def)
  have needs: "ADC_needs_conversion ?u c = (c \<in> set (drop (k + 1) ?ch))"
    if "c < ADC_CHANNEL_COUNT" for c
  proof -
    have "ADC_needs_conversion t c = (c \<in> set (drop k ?ch))"
      using p that by (simp add: adc_progress_def)
    moreover have "drop k ?ch = ?ch ! k # drop (k + 1) ?ch"
      using k by (simp add: Cons_nth_drop_Suc)
    moreover have "?ch ! k \<notin> set (drop (k + 1) ?ch)"
      using d k by (metis Suc_eq_plus1 calculation(2) distinct.simps(2) distinct_drop)
    ultimately show ?thesis
      by (auto simp: u store_result_def)
  qed
  have ready: "ADC_data_ready ?u c = (c \<in> set (take (k + 1) ?ch))"
    if "c < ADC_CHANNEL_COUNT" for c
  proof -
    have "ADC_data_ready t c = (c \<in> set (take k ?ch))"
      using p that by (simp add: adc_progress_def)
    then show ?thesis
      using k by (auto simp: u store_result_def take_Suc_conv_app_nth)
  qed
  have data: "ADC_data ?u (?ch ! i) = (rs @ [r]) ! i" if "i < k + 1" for i
  proof (cases "i = k")
    case True
    then show ?thesis
      using len by (simp add: u store_result_def nth_append)
  next
    case False
    with that have i: "i < k"
      by simp
    then have "?ch ! i \<noteq> ?ch ! k"
      using d k by (simp add: nth_eq_iff_index_eq)
    moreover have "ADC_data t (?ch ! i) = rs ! i"
      using p i by (simp add: adc_progress_def)
    ultimately show ?thesis
      using i len by (simp add: u store_result_def nth_append)
  qed
  have "ADC_started t = hw @ take (k + 1) ?ch"
    using p by (simp add: adc_progress_def)
  moreover have "take (k + 1) ?ch @ take 1 (drop (k + 1) ?ch) = take (k + 1 + 1) ?ch"
    by (metis take_add)
  ultimately have started: "ADC_started ?u = hw @ take (k + 1 + 1) ?ch"
    by (simp add: u store_result_def)
  have idle: "ADC_idle ?u = (k + 1 = length ?ch)"
    by (simp add: u)
  show ?thesis
    unfolding adc_progress_def
    using k len needs ready data started idle by simp
qed

text \<open>Polling while idle, or while the hardware is busy, changes nothing.\<close>

lemma poll_idle: "ADC_idle t \<Longrightarrow> ADC_HousekeepingPoll busy r t = t"
  by (simp add: ADC_HousekeepingPoll_def)

lemma poll_busy: "ADC_HousekeepingPoll True r t = t"
  by (simp add: ADC_HousekeepingPoll_def)

lemma adc_polls_append: "adc_polls (rs @ [r]) s = ADC_HousekeepingPoll False r (adc_polls rs s)"
  by (induction rs arbitrary: s) simp_all

lemma polls_progress:
  assumes "adc_progress hw (requested m) 0 [] s" and "length rs \<le> length (requested m)"
  shows "adc_progress hw (requested m) (length rs) rs (adc_polls rs s)"
  using assms(2)
proof (induction rs rule: rev_induct)
  case Nil
  then show ?case using assms(1) by simp
next
  case (snoc r rs)
  then have "adc_progress hw (requested m) (length rs) rs (adc_polls rs s)"
    and "length rs < length (requested m)"
    by simp_all
  from poll_progress [OF this, of r] show ?case
    by (simp add: adc_polls_append)
qed

subsection \<open>Accepting a request\<close>

lemma start_fields:
  assumes "ADC_idle s"
  shows "ADC_StartConversion m s =
           s \<lparr> ADC_idle := (requested m = []),
               ADC_needs_conversion :=
                 (\<lambda>c. if c < ADC_CHANNEL_COUNT then c \<in> set (requested m)
                       else ADC_needs_conversion s c),
               ADC_data_ready :=
                 (\<lambda>c. if c < ADC_CHANNEL_COUNT then False else ADC_data_ready s c),
               ADC_data := (\<lambda>c. if c < ADC_CHANNEL_COUNT then 0 else ADC_data s c),
               ADC_started := ADC_started s @ take 1 (requested m) \<rparr>"
proof -
  define P where "P c = (m AND push_bit c 1 \<noteq> 0)" for c
  have n: "[0..<ADC_CHANNEL_COUNT] \<noteq> []"
    by (simp add: ADC_CHANNEL_COUNT_def)
  have b: "c \<in> set (requested m) \<longleftrightarrow> c < ADC_CHANNEL_COUNT \<and> P c" for c
    unfolding P_def by (auto simp: requested_def bit_iff_and_push_bit_not_eq_0)
  have Pfun: "P = (\<lambda>c. m AND push_bit c 1 \<noteq> 0)"
    by (rule ext) (rule P_def)
  have req: "filter P [0..<ADC_CHANNEL_COUNT] = requested m"
    unfolding Pfun by (rule requested_mask)
  have f: "fold (start_body m) [0..<ADC_CHANNEL_COUNT] (s0, True, 0)
         = (s0 \<lparr> ADC_needs_conversion :=
                    (\<lambda>c. if c \<in> set [0..<ADC_CHANNEL_COUNT] \<and> P c then True
                          else ADC_needs_conversion s0 c) \<rparr>,
            requested m = [], case requested m of [] \<Rightarrow> 0 | c # _ \<Rightarrow> c)" for s0
    using start_fold [of m "[0..<ADC_CHANNEL_COUNT]" s0 True 0, folded Pfun P_def]
    by (simp only: req simp_thms if_True)
  note r = reinit_fold [OF n, of s]
  show ?thesis
  proof (cases "requested m")
    case Nil
    then show ?thesis
      using assms b
      by (simp add: ADC_StartConversion_def ADC_ReInitBuffer_def r f fun_eq_iff)
  next
    case (Cons c cs)
    then have "c < ADC_CHANNEL_COUNT"
      using requested_range [of c m] by simp
    then show ?thesis
      using assms b Cons
      by (simp add: ADC_StartConversion_def ADC_ReInitBuffer_def r f ADC_ReadFromChannel_def
          fun_eq_iff)
  qed
qed

lemma start_progress:
  assumes "ADC_idle s"
  shows "adc_progress (ADC_started s) (requested m) 0 [] (ADC_StartConversion m s)"
  unfolding adc_progress_def start_fields [OF assms]
  by (simp add: eq_commute [of "[]"])

lemma start_not_idle: "\<not> ADC_idle s \<Longrightarrow> ADC_StartConversion m s = s"
  by (simp add: ADC_StartConversion_def)
subsection \<open>Reading the results\<close>

lemma read_sample:
  assumes "ADC_idle u"
    and "\<forall>c<ADC_CHANNEL_COUNT. ADC_data_ready u c = (c \<in> set (drop j (requested m)))"
  shows "ADC_ReadPendingSample u =
           (if j < length (requested m)
              then (u \<lparr> ADC_data_ready := (ADC_data_ready u) (requested m ! j := False) \<rparr>,
                    Some (ADC_data u (requested m ! j), requested m ! j))
            else (u, None))"
proof (cases "j < length (requested m)")
  case True
  then have "filter (ADC_data_ready u) [0..<ADC_CHANNEL_COUNT]
               = requested m ! j # drop (j + 1) (requested m)"
    using ready_channels [OF assms(2)] by (simp add: Cons_nth_drop_Suc)
  then show ?thesis
    using assms(1) True by (simp add: ADC_ReadPendingSample_def read_fold)
next
  case False
  then have "filter (ADC_data_ready u) [0..<ADC_CHANNEL_COUNT] = []"
    using ready_channels [OF assms(2)] by simp
  then show ?thesis
    using assms(1) False by (simp add: ADC_ReadPendingSample_def read_fold)
qed

lemma reads_from:
  assumes "ADC_idle u"
    and "\<forall>c<ADC_CHANNEL_COUNT. ADC_data_ready u c = (c \<in> set (drop j (requested m)))"
    and "\<forall>i<length (requested m). ADC_data u (requested m ! i) = rs ! i"
    and "length rs = length (requested m)" and "j + d = length (requested m)"
  shows "adc_reads (d + 1) u = map Some (zip (drop j rs) (drop j (requested m))) @ [None]"
  using assms
proof (induction d arbitrary: j u)
  case 0
  then have "\<not> j < length (requested m)" "drop j (requested m) = []"
    by simp_all
  then show ?case
    using read_sample [OF "0.prems"(1,2)] by simp
next
  case (Suc d)
  then have j: "j < length (requested m)"
    by simp
  let ?c = "requested m ! j"
  let ?u = "u \<lparr> ADC_data_ready := (ADC_data_ready u) (?c := False) \<rparr>"
  have r: "ADC_ReadPendingSample u = (?u, Some (rs ! j, ?c))"
    using read_sample [OF Suc.prems(1,2)] j Suc.prems(3) by simp
  have "?c \<notin> set (drop (j + 1) (requested m))"
    using requested_sorted(2) [of m] j
    by (metis Cons_nth_drop_Suc Suc_eq_plus1 distinct.simps(2) distinct_drop)
  moreover have "drop j (requested m) = ?c # drop (j + 1) (requested m)"
    using j by (simp add: Cons_nth_drop_Suc)
  ultimately have
    "\<forall>c<ADC_CHANNEL_COUNT. ADC_data_ready ?u c = (c \<in> set (drop (j + 1) (requested m)))"
    using Suc.prems(2) by auto
  moreover have "ADC_idle ?u"
    "\<forall>i<length (requested m). ADC_data ?u (requested m ! i) = rs ! i"
    using Suc.prems(1,3) by simp_all
  ultimately have "adc_reads (d + 1) ?u
      = map Some (zip (drop (j + 1) rs) (drop (j + 1) (requested m))) @ [None]"
    using Suc.prems(4,5) by (intro Suc.IH) simp_all
  moreover have "drop j rs = rs ! j # drop (j + 1) rs"
    using j Suc.prems(4) by (simp add: Cons_nth_drop_Suc)
  moreover have "drop j (requested m) = ?c # drop (j + 1) (requested m)"
    using j by (simp add: Cons_nth_drop_Suc)
  ultimately show ?case
    using r by simp
qed

text \<open>
  Claim C3. Let the scheduler be idle when \<open>ADC_StartConversion\<close> is called with a mask,
  and let \<open>ADC_HousekeepingPoll\<close> then run once per hardware result, the hardware
  reporting completion each time. The requested in-range channels form an ascending list
  without repetition. After \<open>k\<close> polls the first \<open>k\<close> of them, and no other channel, are
  ready and hold the \<open>k\<close> results in order; the others still need conversion; the
  conversions started so far are the first \<open>k + 1\<close> requested channels in ascending
  order; and the scheduler is idle exactly when all requested channels have been
  served. Once it is idle, successive calls of \<open>ADC_ReadPendingSample\<close> return each
  result with its channel once, in ascending channel order, and then nothing. A call of
  \<open>ADC_StartConversion\<close> while the scheduler is not idle leaves the state as it is.
\<close>

theorem C3_round_robin:
  "(ADC_idle s \<and> length rs \<le> length (requested m) \<longrightarrow>
      sorted (requested m) \<and> distinct (requested m)
      \<and> set (requested m) = {c. c < ADC_CHANNEL_COUNT \<and> bit m c}
      \<and> (ADC_idle (adc_run m rs s) \<longleftrightarrow> length rs = length (requested m))
      \<and> (\<forall>c<ADC_CHANNEL_COUNT.
            ADC_data_ready (adc_run m rs s) c \<longleftrightarrow> c \<in> set (take (length rs) (requested m)))
      \<and> (\<forall>c<ADC_CHANNEL_COUNT.
            ADC_needs_conversion (adc_run m rs s) c
              \<longleftrightarrow> c \<in> set (drop (length rs) (requested m)))
      \<and> (\<forall>i<length rs. ADC_data (adc_run m rs s) (requested m ! i) = rs ! i)
      \<and> ADC_started (adc_run m rs s) = ADC_started s @ take (length rs + 1) (requested m)
      \<and> (length rs = length (requested m) \<longrightarrow>
            adc_reads (length rs + 1) (adc_run m rs s)
              = map Some (zip rs (requested m)) @ [None]))
   \<and> (\<not> ADC_idle s \<longrightarrow> ADC_StartConversion m s = s)"
proof (intro conjI impI)
  assume "\<not> ADC_idle s"
  then show "ADC_StartConversion m s = s"
    by (rule start_not_idle)
next
  show "set (requested m) = {c. c < ADC_CHANNEL_COUNT \<and> bit m c}"
    by (auto simp: requested_def)
next
  assume a: "ADC_idle s \<and> length rs \<le> length (requested m)"
  then have p: "adc_progress (ADC_started s) (requested m) (length rs) rs (adc_run m rs s)"
    unfolding adc_run_def by (intro polls_progress start_progress) simp_all
  note q = p [unfolded adc_progress_def]
  show "sorted (requested m)" "distinct (requested m)"
    by (rule requested_sorted)+
  show "ADC_idle (adc_run m rs s) \<longleftrightarrow> length rs = length (requested m)"
    using q by blast
  show "\<forall>c<ADC_CHANNEL_COUNT.
          ADC_data_ready (adc_run m rs s) c \<longleftrightarrow> c \<in> set (take (length rs) (requested m))"
    using q by blast
  show "\<forall>c<ADC_CHANNEL_COUNT.
          ADC_needs_conversion (adc_run m rs s) c \<longleftrightarrow> c \<in> set (drop (length rs) (requested m))"
    using q by blast
  show "\<forall>i<length rs. ADC_data (adc_run m rs s) (requested m ! i) = rs ! i"
    using q by blast
  show "ADC_started (adc_run m rs s) = ADC_started s @ take (length rs + 1) (requested m)"
    using q by blast
  show "adc_reads (length rs + 1) (adc_run m rs s) = map Some (zip rs (requested m)) @ [None]"
    if l: "length rs = length (requested m)"
  proof -
    have "ADC_idle (adc_run m rs s)"
      "\<forall>c<ADC_CHANNEL_COUNT.
         ADC_data_ready (adc_run m rs s) c = (c \<in> set (drop 0 (requested m)))"
      "\<forall>i<length (requested m). ADC_data (adc_run m rs s) (requested m ! i) = rs ! i"
      using q l by simp_all
    from reads_from [OF this l, of "length rs"] l show ?thesis
      by simp
  qed
qed
theorem C3_round_robin_witness:
  "ADC_idle adc_boot \<and> length [10, 20, 30 :: 16 word] \<le> length (requested 0x2A)
   \<and> requested 0x2A = [1, 3, 5]
   \<and> ADC_idle (adc_run 0x2A [10, 20, 30] adc_boot)
   \<and> \<not> ADC_idle (adc_run 0x2A [10] adc_boot)
   \<and> ADC_data_ready (adc_run 0x2A [10, 20, 30] adc_boot) 3
   \<and> \<not> ADC_data_ready (adc_run 0x2A [10] adc_boot) 3
   \<and> ADC_needs_conversion (adc_run 0x2A [10] adc_boot) 3
   \<and> ADC_data (adc_run 0x2A [10, 20, 30] adc_boot) 3 = 20
   \<and> ADC_started (adc_run 0x2A [10, 20, 30] adc_boot) = [1, 3, 5]
   \<and> ADC_started (adc_run 0x2A [10] adc_boot) = [1, 3]
   \<and> adc_reads 4 (adc_run 0x2A [10, 20, 30] adc_boot)
       = [Some (10, 1), Some (20, 3), Some (30, 5), None]
   \<and> \<not> ADC_idle (adc_run 0x2A [] adc_boot)
   \<and> ADC_StartConversion 0x15 (adc_run 0x2A [] adc_boot) = adc_run 0x2A [] adc_boot"
proof -
  have r: "requested 0x2A = [1, 3, 5]"
    by code_simp
  have i: "ADC_idle adc_boot" "ADC_started adc_boot = []"
    by (simp_all add: adc_boot_def)
  have n: "\<not> ADC_idle (adc_run 0x2A [] adc_boot)"
    by code_simp
  have c: "(3::nat) < ADC_CHANNEL_COUNT"
    by (simp add: ADC_CHANNEL_COUNT_def)
  have l: "length [10, 20, 30 :: 16 word] = length (requested 0x2A)"
    "length [10 :: 16 word] \<le> length (requested 0x2A)" "length [10 :: 16 word] = 1"
    "length ([] :: 16 word list) \<le> length (requested 0x15)"
    by (simp_all add: r)
  have a: "ADC_idle (adc_run 0x2A [10, 20, 30] adc_boot)"
    "ADC_data_ready (adc_run 0x2A [10, 20, 30] adc_boot) 3"
    "ADC_data (adc_run 0x2A [10, 20, 30] adc_boot) 3 = 20"
    "ADC_started (adc_run 0x2A [10, 20, 30] adc_boot) = [1, 3, 5]"
    "adc_reads 4 (adc_run 0x2A [10, 20, 30] adc_boot)
       = [Some (10, 1), Some (20, 3), Some (30, 5), None]"
  proof -
    note t = C3_round_robin [of adc_boot "[10, 20, 30]" "0x2A", THEN conjunct1, rule_format,
        OF conjI [OF i(1) eq_refl [OF l(1)]], unfolded r]
    show "ADC_idle (adc_run 0x2A [10, 20, 30] adc_boot)"
      using t by simp
    show "ADC_data_ready (adc_run 0x2A [10, 20, 30] adc_boot) 3"
      using t c by simp
    have "ADC_data (adc_run 0x2A [10, 20, 30] adc_boot) ([1, 3, 5] ! 1) = [10, 20, 30] ! 1"
      using t by (auto simp del: nth_Cons_numeral One_nat_def nth_Cons_Suc nth_Cons')
    then show "ADC_data (adc_run 0x2A [10, 20, 30] adc_boot) 3 = 20"
      by simp
    show "ADC_started (adc_run 0x2A [10, 20, 30] adc_boot) = [1, 3, 5]"
      using t i(2) by simp
    show "adc_reads 4 (adc_run 0x2A [10, 20, 30] adc_boot)
       = [Some (10, 1), Some (20, 3), Some (30, 5), None]"
      using t by (simp add: eval_nat_numeral)
  qed
  have b: "\<not> ADC_idle (adc_run 0x2A [10] adc_boot)"
    "\<not> ADC_data_ready (adc_run 0x2A [10] adc_boot) 3"
    "ADC_needs_conversion (adc_run 0x2A [10] adc_boot) 3"
    "ADC_started (adc_run 0x2A [10] adc_boot) = [1, 3]"
  proof -
    note t = C3_round_robin [of adc_boot "[10]" "0x2A", THEN conjunct1, rule_format,
        OF conjI [OF i(1) l(2)], unfolded r l(3)]
    show "\<not> ADC_idle (adc_run 0x2A [10] adc_boot)"
      using t by simp
    show "\<not> ADC_data_ready (adc_run 0x2A [10] adc_boot) 3"
      using t c by simp
    show "ADC_needs_conversion (adc_run 0x2A [10] adc_boot) 3"
      using t c by simp
    show "ADC_started (adc_run 0x2A [10] adc_boot) = [1, 3]"
      using t i(2) by simp
  qed
  have "ADC_StartConversion 0x15 (adc_run 0x2A [] adc_boot) = adc_run 0x2A [] adc_boot"
    using C3_round_robin [of "adc_run 0x2A [] adc_boot" "[]" "0x15"] n by blast
  then show ?thesis
    using r i(1) n a b by simp
qed
section \<open>Properties of the atomic sections\<close>

lemma enter_nested:
  assumes "0 < atomic_owner_count s" and "atomic_owner_id s = tid"
  shows "ATOMIC_GetCli tid save_old s =
           Some (s \<lparr> atomic_owner_count := atomic_owner_count s + 1 \<rparr>,
                 if save_old then ATOMIC_WANT_NO_INTERRUPTS else ATOMIC_WANT_INTERRUPTS)"
  using assms by (simp add: ATOMIC_GetCli_def Let_def)

lemma enter_outermost:
  assumes "atomic_owner_count s = 0" and "atomic_waiting_mutex s = None"
  shows "ATOMIC_GetCli tid save_old s =
           Some (s \<lparr> atomic_waiting_mutex := Some tid, atomic_owner_count := 1,
                     atomic_owner_id := tid \<rparr>,
                 ATOMIC_WANT_INTERRUPTS)"
  using assms by (simp add: ATOMIC_GetCli_def Let_def mutex_lock_def)

lemma enter_blocked:
  assumes "atomic_owner_count s = 0" and "atomic_waiting_mutex s = Some other"
  shows "ATOMIC_GetCli tid save_old s = None"
  using assms by (simp add: ATOMIC_GetCli_def Let_def mutex_lock_def)

lemma exit_inner:
  assumes "1 < atomic_owner_count s"
  shows "ATOMIC_ReleaseCli tid idx s =
           Some (s \<lparr> atomic_owner_count := atomic_owner_count s - 1 \<rparr>, ATOMIC_DONE)"
  using assms by (simp add: ATOMIC_ReleaseCli_def Let_def)

lemma exit_outermost:
  assumes "atomic_owner_count s = 1" and "atomic_waiting_mutex s = Some tid"
  shows "ATOMIC_ReleaseCli tid idx s =
           Some (s \<lparr> atomic_owner_count := 0, atomic_waiting_mutex := None \<rparr>, ATOMIC_DONE)"
  using assms by (simp add: ATOMIC_ReleaseCli_def Let_def mutex_unlock_def)

lemma enter_at_depth:
  assumes "at_depth tid d (s, idxs)"
  shows "\<exists>s' idx. ATOMIC_GetCli tid save_old s = Some (s', idx)
           \<and> at_depth tid (d + 1) (s', idx # idxs)"
proof (cases "0 < d")
  case True
  then show ?thesis
    using assms enter_nested [of s tid save_old] by (simp add: at_depth_def)
next
  case False
  then show ?thesis
    using assms enter_outermost [of s tid save_old] by (simp add: at_depth_def)
qed

lemma exit_at_depth:
  assumes "at_depth tid (d + 1) (s, idx # idxs)"
  shows "\<exists>s' r. ATOMIC_ReleaseCli tid idx s = Some (s', r) \<and> at_depth tid d (s', idxs)"
proof (cases "0 < d")
  case True
  then show ?thesis
    using assms exit_inner [of s tid idx] by (simp add: at_depth_def)
next
  case False
  then show ?thesis
    using assms exit_outermost [of s tid idx] by (simp add: at_depth_def)
qed

lemma run_at_depth:
  assumes "at_depth tid d v" and "nesting d ops = Some d'"
  shows "\<exists>v'. atomic_run tid ops v = Some v' \<and> at_depth tid d' v'"
  using assms
proof (induction ops arbitrary: d v)
  case Nil
  then show ?case by simp
next
  case (Cons op ops)
  obtain s idxs where v: "v = (s, idxs)"
    by (cases v)
  show ?case
  proof (cases op)
    case (Enter save_old)
    obtain s' idx where e: "ATOMIC_GetCli tid save_old s = Some (s', idx)"
      "at_depth tid (d + 1) (s', idx # idxs)"
      using enter_at_depth [of tid d s idxs save_old] Cons.prems(1) v by blast
    from Cons.IH [OF e(2)] Cons.prems(2) Enter
    show ?thesis
      by (simp add: v e(1))
  next
    case Exit
    with Cons.prems(2) obtain k where k: "d = k + 1" "nesting k ops = Some d'"
      by (cases d) (simp_all split: if_splits)
    with Cons.prems(1) v obtain idx rest where i: "idxs = idx # rest"
      by (cases idxs) (simp_all add: at_depth_def)
    obtain s' r where x: "ATOMIC_ReleaseCli tid idx s = Some (s', r)" "at_depth tid k (s', rest)"
      using exit_at_depth [of tid k s idx rest] Cons.prems(1) v k(1) i by blast
    from Cons.IH [OF x(2) k(2)] Exit
    show ?thesis
      by (simp add: v i x(1))
  qed
qed

lemma nesting_append:
  "nesting d (xs @ ys) = (case nesting d xs of None \<Rightarrow> None | Some e \<Rightarrow> nesting e ys)"
  by (induction d xs rule: nesting.induct) simp_all
text \<open>
  Claim C7. For the thread that owns the section: an inner enter returns at once and
  only increments the nesting count, the mutex is not locked again; an exit that leaves
  the count positive only decrements it, the mutex stays held; the exit that brings the
  count to zero unlocks the mutex. Hence along every properly nested sequence of enters
  and exits that starts outside any section with the mutex free, every call returns,
  the thread holds the mutex at every point of positive depth, and at the end the count
  is zero and the mutex is free again, as it was before the outermost enter, under
  either policy.
\<close>

theorem C7_nested_atomic_sections:
  "(0 < atomic_owner_count s \<and> atomic_owner_id s = tid \<longrightarrow>
      ATOMIC_GetCli tid save_old s =
        Some (s \<lparr> atomic_owner_count := atomic_owner_count s + 1 \<rparr>,
              if save_old then ATOMIC_WANT_NO_INTERRUPTS else ATOMIC_WANT_INTERRUPTS))
   \<and> (1 < atomic_owner_count s \<longrightarrow>
        ATOMIC_ReleaseCli tid idx s =
          Some (s \<lparr> atomic_owner_count := atomic_owner_count s - 1 \<rparr>, ATOMIC_DONE))
   \<and> (atomic_owner_count s = 1 \<and> atomic_waiting_mutex s = Some tid \<longrightarrow>
        ATOMIC_ReleaseCli tid idx s =
          Some (s \<lparr> atomic_owner_count := 0, atomic_waiting_mutex := None \<rparr>, ATOMIC_DONE))
   \<and> (atomic_owner_count s = 0 \<and> atomic_waiting_mutex s = None \<and> properly_nested (xs @ ys) \<longrightarrow>
        (\<exists>s1 idxs d. atomic_run tid xs (s, []) = Some (s1, idxs)
            \<and> nesting 0 xs = Some d
            \<and> atomic_owner_count s1 = int d
            \<and> atomic_waiting_mutex s1 = (if 0 < d then Some tid else None))
        \<and> (\<exists>s2. atomic_run tid (xs @ ys) (s, []) = Some (s2, [])
            \<and> atomic_owner_count s2 = 0
            \<and> atomic_waiting_mutex s2 = atomic_waiting_mutex s))"
proof (intro conjI impI)
  assume "0 < atomic_owner_count s \<and> atomic_owner_id s = tid"
  then show "ATOMIC_GetCli tid save_old s =
        Some (s \<lparr> atomic_owner_count := atomic_owner_count s + 1 \<rparr>,
              if save_old then ATOMIC_WANT_NO_INTERRUPTS else ATOMIC_WANT_INTERRUPTS)"
    by (simp add: enter_nested)
next
  assume "1 < atomic_owner_count s"
  then show "ATOMIC_ReleaseCli tid idx s =
          Some (s \<lparr> atomic_owner_count := atomic_owner_count s - 1 \<rparr>, ATOMIC_DONE)"
    by (rule exit_inner)
next
  assume "atomic_owner_count s = 1 \<and> atomic_waiting_mutex s = Some tid"
  then show "ATOMIC_ReleaseCli tid idx s =
          Some (s \<lparr> atomic_owner_count := 0, atomic_waiting_mutex := None \<rparr>, ATOMIC_DONE)"
    by (simp add: exit_outermost)
next
  assume a: "atomic_owner_count s = 0 \<and> atomic_waiting_mutex s = None
               \<and> properly_nested (xs @ ys)"
  then have start: "at_depth tid 0 (s, [])"
    by (simp add: at_depth_def)
  from a obtain d where d: "nesting 0 xs = Some d"
    by (auto simp: properly_nested_def nesting_append split: option.splits)
  from run_at_depth [OF start d] obtain s1 idxs
    where "atomic_run tid xs (s, []) = Some (s1, idxs)" "at_depth tid d (s1, idxs)"
    by auto
  then show "\<exists>s1 idxs d. atomic_run tid xs (s, []) = Some (s1, idxs)
            \<and> nesting 0 xs = Some d
            \<and> atomic_owner_count s1 = int d
            \<and> atomic_waiting_mutex s1 = (if 0 < d then Some tid else None)"
    using d by (auto simp: at_depth_def)
  from a have "nesting 0 (xs @ ys) = Some 0"
    by (simp add: properly_nested_def)
  from run_at_depth [OF start this] a
  show "\<exists>s2. atomic_run tid (xs @ ys) (s, []) = Some (s2, [])
            \<and> atomic_owner_count s2 = 0
            \<and> atomic_waiting_mutex s2 = atomic_waiting_mutex s"
    by (auto simp: at_depth_def)
qed

theorem C7_nested_atomic_sections_witness:
  "properly_nested ([Enter ATOMIC_RESTORESTATE, Enter ATOMIC_RESTORESTATE, Exit] @ [Exit])
   \<and> (\<exists>s1 idxs. atomic_run 1 [Enter ATOMIC_RESTORESTATE, Enter ATOMIC_RESTORESTATE, Exit]
          (\<lparr> atomic_owner_count = 0, atomic_owner_id = 0, atomic_waiting_mutex = None \<rparr>, [])
            = Some (s1, idxs)
        \<and> atomic_owner_count s1 = 1 \<and> atomic_waiting_mutex s1 = Some 1)
   \<and> (\<exists>s2. atomic_run 1 ([Enter ATOMIC_RESTORESTATE, Enter ATOMIC_RESTORESTATE, Exit] @ [Exit])
          (\<lparr> atomic_owner_count = 0, atomic_owner_id = 0, atomic_waiting_mutex = None \<rparr>, [])
            = Some (s2, [])
        \<and> atomic_owner_count s2 = 0 \<and> atomic_waiting_mutex s2 = None)
   \<and> ATOMIC_GetCli 1 ATOMIC_RESTORESTATE
        \<lparr> atomic_owner_count = 1, atomic_owner_id = 1, atomic_waiting_mutex = Some 1 \<rparr>
       = Some (\<lparr> atomic_owner_count = 2, atomic_owner_id = 1, atomic_waiting_mutex = Some 1 \<rparr>,
               ATOMIC_WANT_NO_INTERRUPTS)
   \<and> ATOMIC_ReleaseCli 1 ATOMIC_WANT_NO_INTERRUPTS
        \<lparr> atomic_owner_count = 2, atomic_owner_id = 1, atomic_waiting_mutex = Some 1 \<rparr>
       = Some (\<lparr> atomic_owner_count = 1, atomic_owner_id = 1, atomic_waiting_mutex = Some 1 \<rparr>,
               ATOMIC_DONE)
   \<and> ATOMIC_ReleaseCli 1 ATOMIC_WANT_INTERRUPTS
        \<lparr> atomic_owner_count = 1, atomic_owner_id = 1, atomic_waiting_mutex = Some 1 \<rparr>
       = Some (\<lparr> atomic_owner_count = 0, atomic_owner_id = 1, atomic_waiting_mutex = None \<rparr>,
               ATOMIC_DONE)"
proof -
  have n: "properly_nested ([Enter ATOMIC_RESTORESTATE, Enter ATOMIC_RESTORESTATE, Exit] @ [Exit])"
    "nesting 0 [Enter ATOMIC_RESTORESTATE, Enter ATOMIC_RESTORESTATE, Exit] = Some 1"
    by (simp_all add: properly_nested_def)
  from C7_nested_atomic_sections
    [of "\<lparr> atomic_owner_count = 0, atomic_owner_id = 0, atomic_waiting_mutex = None \<rparr>" 1
      ATOMIC_RESTORESTATE ATOMIC_DONE
      "[Enter ATOMIC_RESTORESTATE, Enter ATOMIC_RESTORESTATE, Exit]" "[Exit]"]
    C7_nested_atomic_sections
    [of "\<lparr> atomic_owner_count = 1, atomic_owner_id = 1, atomic_waiting_mutex = Some 1 \<rparr>" 1
      ATOMIC_RESTORESTATE ATOMIC_WANT_INTERRUPTS "[]" "[]"]
    C7_nested_atomic_sections
    [of "\<lparr> atomic_owner_count = 2, atomic_owner_id = 1, atomic_waiting_mutex = Some 1 \<rparr>" 1
      ATOMIC_RESTORESTATE ATOMIC_WANT_NO_INTERRUPTS "[]" "[]"]
  show ?thesis
    using n by (simp add: ATOMIC_RESTORESTATE_def)
qed
section \<open>Properties of the application framework\<close>

subsection \<open>Command dispatch\<close>

lemma cmdlist_loop_found:
  "cmdlist_loop cmd argcnt a1 a2 h es (True, b, c) = (True, b, c)"
  by (cases es) simp_all

lemma cmdlist_loop_find:
  "cmdlist_loop cmd argcnt a1 a2 h es (False, b, c) =
     (case find (\<lambda>e. CommandMatch cmd (name e)) (takeWhile (\<lambda>e. 0 \<le> argcount e) es) of
        None \<Rightarrow> (False, b, c)
      | Some e \<Rightarrow>
          if argcnt = argcount e then (True, b, c @ [HandleCommand h (opcode e) a1 a2])
          else (True, True, c))"
  by (induction es) (simp_all add: cmdlist_loop_found)

lemma rows_loop_found:
  "rows_loop cmd argcnt a1 a2 rows (True, b, c) = (True, b, c)"
  by (cases rows) simp_all

lemma find_Pair:
  "find (\<lambda>(h, e). P e) (map (Pair h) es) = map_option (Pair h) (find P es)"
  by (induction es) simp_all

lemma find_append_cases:
  "find P (xs @ ys) = (case find P xs of None \<Rightarrow> find P ys | Some x \<Rightarrow> Some x)"
  by (induction xs) simp_all

lemma active_entries_Cons:
  "active_entries (row # rows) =
     (if NULL \<noteq> handler row
        then (case cmdlist row of
                None \<Rightarrow> []
              | Some cmds \<Rightarrow> map (Pair (handler row)) (takeWhile (\<lambda>e. 0 \<le> argcount e) cmds))
             @ active_entries rows
      else [])"
  by (simp add: active_entries_def)

lemma rows_loop_find:
  "rows_loop cmd argcnt a1 a2 rows (False, b, c) =
     (case find (\<lambda>(h, e). CommandMatch cmd (name e)) (active_entries rows) of
        None \<Rightarrow> (False, b, c)
      | Some (h, e) \<Rightarrow>
          if argcnt = argcount e then (True, b, c @ [HandleCommand h (opcode e) a1 a2])
          else (True, True, c))"
proof (induction rows)
  case Nil
  then show ?case by (simp add: active_entries_def)
next
  case (Cons row rows)
  show ?case
  proof (cases "NULL \<noteq> handler row")
    case False
    then show ?thesis
      by (simp add: active_entries_Cons)
  next
    case True
    show ?thesis
    proof (cases "cmdlist row")
      case None
      then show ?thesis
        using True Cons.IH by (simp add: active_entries_Cons)
    next
      case (Some cmds)
      show ?thesis
      proof (cases "find (\<lambda>e. CommandMatch cmd (name e)) (takeWhile (\<lambda>e. 0 \<le> argcount e) cmds)")
        case None
        then show ?thesis
          using True Some Cons.IH
          by (simp add: active_entries_Cons cmdlist_loop_find find_append_cases find_Pair)
      next
        case (Some e)
        then show ?thesis
          using True \<open>cmdlist row = Some cmds\<close>
          by (simp add: active_entries_Cons cmdlist_loop_find find_append_cases find_Pair
              rows_loop_found)
      qed
    qed
  qed
qed

lemma dispatch_command_first_match:
  "dispatch_command lut cmd argcnt a1 a2 =
     (case first_match lut cmd of
        None \<Rightarrow> (True, [])
      | Some (h, e) \<Rightarrow>
          if argcnt = argcount e then (False, [HandleCommand h (opcode e) a1 a2])
          else (True, []))"
  by (simp add: dispatch_command_def first_match_def rows_loop_find split: option.split)

text \<open>
  Claim C9. For a command that is not built in, the rows and their command-list entries
  are searched in order, and the first entry whose name matches decides: with the
  argument count of that entry, its row's handler is called with the entry's opcode and
  the two arguments; with any other argument count the short help is printed and no
  handler is called, whatever later entries or rows hold; and when no entry matches the
  short help is printed as well. In each case the function returns and the state is
  the one it was given.
\<close>

theorem C9_first_match_decides:
  "dispatch_command lut cmd argcnt a1 a2 =
     (case first_match lut cmd of
        None \<Rightarrow> (True, [])
      | Some (h, e) \<Rightarrow>
          if argcnt = argcount e then (False, [HandleCommand h (opcode e) a1 a2])
          else (True, []))
   \<and> (\<not> builtin_command cmd \<longrightarrow>
        run_command lut line cmd argcnt a1 a2 st =
          (st, case first_match lut cmd of
                 None \<Rightarrow> [PrintShortHelp line]
               | Some (h, e) \<Rightarrow>
                   if argcnt = argcount e then [HandleCommand h (opcode e) a1 a2]
                   else [PrintShortHelp line]))"
  by (auto simp: dispatch_command_first_match run_command_def builtin_command_def
      split: option.split)
theorem C9_first_match_decides_witness:
  "\<not> builtin_command ''BBB'' \<and> \<not> builtin_command ''EEE''
   \<and> first_match example_lut ''BBB'' = Some (1, \<lparr> name = ''BBB'', opcode = 2, argcount = 1 \<rparr>)
   \<and> first_match example_lut ''EEE'' = None
   \<and> run_command example_lut ''bbb 7'' ''BBB'' 1 7 0 example_app
       = (example_app, [HandleCommand 1 2 7 0])
   \<and> run_command example_lut ''bbb'' ''BBB'' 0 0 0 example_app
       = (example_app, [PrintShortHelp ''bbb''])
   \<and> run_command example_lut ''eee'' ''EEE'' 0 0 0 example_app
       = (example_app, [PrintShortHelp ''eee''])"
proof -
  have b: "\<not> builtin_command ''BBB''" "\<not> builtin_command ''EEE''"
    by code_simp+
  have f: "first_match example_lut ''BBB''
             = Some (1, \<lparr> name = ''BBB'', opcode = 2, argcount = 1 \<rparr>)"
    "first_match example_lut ''EEE'' = None"
    by code_simp+
  from C9_first_match_decides [of example_lut "''BBB''" 1 7 0 "''bbb 7''" example_app]
    C9_first_match_decides [of example_lut "''BBB''" 0 0 0 "''bbb''" example_app]
    C9_first_match_decides [of example_lut "''EEE''" 0 0 0 "''eee''" example_app]
  show ?thesis
    using b f by simp
qed
subsection \<open>Soft reset and handlers registered twice\<close>

lemma handlers_every_row_takeWhile:
  "handlers_every_row lut = map handler (takeWhile (\<lambda>row. NULL \<noteq> handler row) lut)"
proof -
  let ?rows = "takeWhile (\<lambda>row. NULL \<noteq> handler row) lut"
  have "map (\<lambda>hidx. handler (lut ! hidx)) [0..<length ?rows]
      = map (\<lambda>hidx. handler (?rows ! hidx)) [0..<length ?rows]"
    by (intro map_cong) (simp_all add: takeWhile_nth)
  also have "\<dots> = map handler (map (nth ?rows) [0..<length ?rows])"
    by (simp only: map_map comp_def)
  also have "\<dots> = map handler ?rows"
    by (simp only: map_nth)
  finally show ?thesis
    by (simp add: handlers_every_row_def lut_rows_def)
qed

lemma handlers_every_row_append:
  "\<forall>row\<in>set pre. NULL \<noteq> handler row \<Longrightarrow>
   handlers_every_row (pre @ rest) = map handler pre @ handlers_every_row rest"
  by (simp add: handlers_every_row_takeWhile takeWhile_append2)

lemma active_entries_append:
  "\<forall>row\<in>set pre. NULL \<noteq> handler row \<Longrightarrow>
   active_entries (pre @ rest) = active_entries pre @ active_entries rest"
  by (simp add: active_entries_def takeWhile_append2 takeWhile_eq_all_conv [THEN iffD2])

lemma CommandMatch_refl: "CommandMatch cmd cmd"
  by (simp add: CommandMatch_def NEURAPP_CMD_CHARS_def numeral_3_eq_3)

lemma reset_is_not_earlier_builtin:
  "\<not> CommandMatch cmd_reset cmd_help" "\<not> CommandMatch cmd_reset cmd_ident"
  by code_simp+

lemma run_command_reset:
  "run_command lut line cmd_reset argcnt a1 a2 st = ReInitState st"
  by (simp add: run_command_def reset_is_not_earlier_builtin CommandMatch_refl
      split: prod.split)

text \<open>
  Claim C1 as the code has it. \<open>ReInitState\<close> calls \<open>InitState\<close> for the handler of
  every row before the closing row, without skipping a repeated adjacent handler: for a
  registry in which two adjacent rows hold the same handler \<open>h\<close>, a soft reset calls
  \<open>InitState\<close> of \<open>h\<close> once for each of the two rows (and once more for any other row
  that holds \<open>h\<close>); the \<open>INI\<close> command runs exactly this reset. A command that is not
  built in and whose name is matched by no entry of the rows up to the first of the two,
  but by an entry of the second row's list with the parsed argument count, is
  dispatched to \<open>h\<close> with that entry's opcode.
\<close>

theorem C1_reset_calls_every_row:
  assumes "event_lut st = Some (pre @ [row1, row2] @ post)"
    and "\<forall>row\<in>set pre. NULL \<noteq> handler row"
    and "handler row1 = h" and "handler row2 = h" and "NULL \<noteq> h"
  shows "snd (ReInitState st) =
           [WaitForSendDone, UserInitState]
             @ map InitState (map handler pre @ [h, h] @ handlers_every_row post)
       \<and> count_list (snd (ReInitState st)) (InitState h) =
           count_list (map handler pre) h + 2 + count_list (handlers_every_row post) h
       \<and> run_command (pre @ [row1, row2] @ post) line cmd_reset argcnt a1 a2 st = ReInitState st
       \<and> (\<not> builtin_command cmd \<and> first_match (pre @ [row1]) cmd = None
            \<and> cmdlist row2 = Some cmds
            \<and> find (\<lambda>e. CommandMatch cmd (name e)) (takeWhile (\<lambda>e. 0 \<le> argcount e) cmds)
                = Some e
            \<and> argcount e = argcnt \<longrightarrow>
          run_command (pre @ [row1, row2] @ post) line cmd argcnt a1 a2 st
            = (st, [HandleCommand h (opcode e) a1 a2]))"
proof (intro conjI impI)
  have rows: "handlers_every_row (pre @ [row1, row2] @ post)
                = map handler pre @ [h, h] @ handlers_every_row post"
    using assms(2-5) handlers_every_row_append [of "pre @ [row1, row2]" post]
    by (simp add: handlers_every_row_append)
  show calls: "snd (ReInitState st) =
           [WaitForSendDone, UserInitState]
             @ map InitState (map handler pre @ [h, h] @ handlers_every_row post)"
    using assms(1) rows by (simp add: ReInitState_def)
  have inj: "count_list (map InitState xs) (InitState h) = count_list xs h" for xs
    by (induction xs) simp_all
  show "count_list (snd (ReInitState st)) (InitState h) =
           count_list (map handler pre) h + 2 + count_list (handlers_every_row post) h"
    unfolding calls by (simp add: inj del: map_append map_map)
  show "run_command (pre @ [row1, row2] @ post) line cmd_reset argcnt a1 a2 st = ReInitState st"
    by (rule run_command_reset)
next
  assume a: "\<not> builtin_command cmd \<and> first_match (pre @ [row1]) cmd = None
            \<and> cmdlist row2 = Some cmds
            \<and> find (\<lambda>e. CommandMatch cmd (name e)) (takeWhile (\<lambda>e. 0 \<le> argcount e) cmds)
                = Some e
            \<and> argcount e = argcnt"
  have "active_entries ((pre @ [row1]) @ row2 # post)
          = active_entries (pre @ [row1]) @ active_entries (row2 # post)"
    using assms(2,3,5) by (intro active_entries_append) auto
  then have "first_match (pre @ [row1, row2] @ post) cmd = Some (h, e)"
    using a assms(4,5)
    by (simp add: first_match_def find_append_cases active_entries_Cons find_Pair)
  then show "run_command (pre @ [row1, row2] @ post) line cmd argcnt a1 a2 st
            = (st, [HandleCommand h (opcode e) a1 a2])"
    using a by (simp add: run_command_def builtin_command_def dispatch_command_first_match)
qed
text \<open>
  Claim C1 as stated fails: with handler 1 registered in the first two rows of the
  example registry, one soft reset calls \<open>InitState\<close> of handler 1 twice, at setup and
  on the \<open>INI\<close> command alike; only \<open>InitHardware\<close> is called once.
\<close>

theorem C1_init_state_called_twice:
  "snd (ReInitState example_app)
     = [WaitForSendDone, UserInitState, InitState 1, InitState 1, InitState 2]
   \<and> count_list (snd (ReInitState example_app)) (InitState 1) = 2
   \<and> snd (process_line True example_lut ''INI'' example_app)
     = [WaitForSendDone, UserInitState, InitState 1, InitState 1, InitState 2]
   \<and> snd (DoInitialSetup (Some example_lut) example_app)
     = [UserInitHardware, InitHardware 1, InitHardware 2,
        WaitForSendDone, UserInitState, InitState 1, InitState 1, InitState 2]"
  by code_simp

theorem C1_reset_calls_every_row_witness:
  "event_lut example_app = Some ([] @ [example_lut ! 0, example_lut ! 1] @ drop 2 example_lut)
   \<and> handler (example_lut ! 0) = 1 \<and> handler (example_lut ! 1) = 1 \<and> NULL \<noteq> (1::nat)
   \<and> \<not> builtin_command ''CCC''
   \<and> first_match ([] @ [example_lut ! 0]) ''CCC'' = None
   \<and> count_list (snd (ReInitState example_app)) (InitState 1) = 2
   \<and> run_command example_lut ''INI'' cmd_reset 0 0 0 example_app = ReInitState example_app
   \<and> run_command example_lut ''ccc 4 5'' ''CCC'' 2 4 5 example_app
       = (example_app, [HandleCommand 1 3 4 5])"
proof -
  let ?cmds = "[\<lparr> name = ''CCC'', opcode = 3, argcount = 2 \<rparr>,
                \<lparr> name = [NUL, NUL, NUL], opcode = 0, argcount = - 1 \<rparr>]"
  let ?e = "\<lparr> name = ''CCC'', opcode = 3, argcount = 2 \<rparr>"
  have l: "example_lut = [] @ [example_lut ! 0, example_lut ! 1] @ drop 2 example_lut"
    by (simp add: example_lut_def)
  have h1: "event_lut example_app
              = Some ([] @ [example_lut ! 0, example_lut ! 1] @ drop 2 example_lut)"
    using l by (simp add: example_app_def)
  have h2: "\<forall>row\<in>set []. NULL \<noteq> handler row"
    by simp
  have h3: "handler (example_lut ! 0) = 1" "handler (example_lut ! 1) = 1" "NULL \<noteq> (1::nat)"
    by (simp_all add: example_lut_def NULL_def)
  have b: "\<not> builtin_command ''CCC''"
    by code_simp
  have f: "first_match ([] @ [example_lut ! 0]) ''CCC'' = None"
    by code_simp
  have c: "cmdlist (example_lut ! 1) = Some ?cmds"
    by (simp add: example_lut_def)
  have e: "find (\<lambda>e. CommandMatch ''CCC'' (name e)) (takeWhile (\<lambda>e. 0 \<le> argcount e) ?cmds)
             = Some ?e"
    by code_simp
  have p: "count_list (map handler []) (1::nat) = 0"
    "count_list (handlers_every_row (drop 2 example_lut)) 1 = 0"
    by code_simp+
  from C1_reset_calls_every_row [OF h1 h2 h3, of "''INI''" 0 0 0 "''CCC''" ?cmds ?e]
    C1_reset_calls_every_row [OF h1 h2 h3, of "''ccc 4 5''" 2 4 5 "''CCC''" ?cmds ?e]
  show ?thesis
    using h1 h3 b f c e p l by simp
qed
subsection \<open>The report queue\<close>

declare report_loop.simps [simp del]

lemma mod_add_distinct:
  assumes "a < b" and "b < (n::nat)"
  shows "(x + a) mod n \<noteq> (x + b) mod n"
proof
  assume "(x + a) mod n = (x + b) mod n"
  then have "n dvd (x + b) - (x + a)"
    using assms(1) by (metis add_le_cancel_left less_imp_le_nat mod_eq_dvd_iff_nat)
  then have "n dvd b - a"
    by simp
  then have "n \<le> b - a"
    using assms(1) by (simp add: dvd_imp_le)
  with assms show False by simp
qed

lemma queue_length: "NEURAPP_REPORT_QUEUE_LENGTH = 4"
  by (simp add: NEURAPP_REPORT_QUEUE_LENGTH_def)

lemma wrap_is_mod:
  assumes "p < (n::nat)"
  shows "(if p + 1 \<ge> n then 0 else p + 1) = (p + 1) mod n"
proof (cases "p + 1 = n")
  case True
  then show ?thesis by simp
next
  case False
  with assms have "p + 1 < n" by simp
  then show ?thesis by simp
qed

lemma queue_inv_slots:
  "queue_inv st =
     (report_count st \<le> NEURAPP_REPORT_QUEUE_LENGTH
      \<and> report_read_ptr st < NEURAPP_REPORT_QUEUE_LENGTH
      \<and> report_write_ptr st
          = (report_read_ptr st + report_count st) mod NEURAPP_REPORT_QUEUE_LENGTH
      \<and> (\<forall>k<report_count st.
            reportqueue st ((report_read_ptr st + k) mod NEURAPP_REPORT_QUEUE_LENGTH)
              (NEURAPP_REPORT_BUFFER_CHARS - 1) = NUL))"
  unfolding queue_inv_def queued_slots_def by auto

lemma queue_grows_slots:
  "queue_grows st st' =
     (report_read_ptr st' = report_read_ptr st
      \<and> transmit_running st' = transmit_running st
      \<and> report_count st \<le> report_count st'
      \<and> (\<forall>k<report_count st.
            reportqueue st' ((report_read_ptr st + k) mod NEURAPP_REPORT_QUEUE_LENGTH)
              = reportqueue st ((report_read_ptr st + k) mod NEURAPP_REPORT_QUEUE_LENGTH)))"
  unfolding queue_grows_def queued_slots_def by auto

lemma queue_grows_refl: "queue_grows st st"
  by (simp add: queue_grows_slots)

lemma queue_grows_trans:
  "queue_grows st st' \<Longrightarrow> queue_grows st' st'' \<Longrightarrow> queue_grows st st''"
  by (simp add: queue_grows_slots)

lemma write_slot_free:
  assumes "queue_inv st" and "report_count st < NEURAPP_REPORT_QUEUE_LENGTH"
    and "k < report_count st"
  shows "(report_read_ptr st + k) mod NEURAPP_REPORT_QUEUE_LENGTH \<noteq> report_write_ptr st"
  using assms mod_add_distinct [of k "report_count st" NEURAPP_REPORT_QUEUE_LENGTH
      "report_read_ptr st"]
  by (simp add: queue_inv_slots)

text \<open>The two ways one call of the generator can leave the queue.\<close>

lemma report_made:
  fixes st :: NeurApp_Base and buffer :: "nat \<Rightarrow> char"
  assumes i: "queue_inv st" and c: "report_count st < NEURAPP_REPORT_QUEUE_LENGTH"
  defines "st' \<equiv>
    st \<lparr> reportqueue :=
           (reportqueue st)
             (report_write_ptr st := buffer (NEURAPP_REPORT_BUFFER_CHARS - 1 := NUL)),
         report_count := report_count st + 1,
         report_write_ptr :=
           (if report_write_ptr st + 1 \<ge> NEURAPP_REPORT_QUEUE_LENGTH then 0
            else report_write_ptr st + 1) \<rparr>"
  shows "queue_inv st'" and "queue_grows st st'"
proof -
  note j = i [unfolded queue_inv_slots]
  have w: "report_write_ptr st < NEURAPP_REPORT_QUEUE_LENGTH"
    using j by (simp add: queue_length)
  have "report_write_ptr st' = (report_write_ptr st + 1) mod NEURAPP_REPORT_QUEUE_LENGTH"
    unfolding st'_def using wrap_is_mod [OF w] by simp
  also have "\<dots> = ((report_read_ptr st + report_count st) mod NEURAPP_REPORT_QUEUE_LENGTH + 1)
      mod NEURAPP_REPORT_QUEUE_LENGTH"
    using j by simp
  also have "\<dots> = (report_read_ptr st + (report_count st + 1))
      mod NEURAPP_REPORT_QUEUE_LENGTH"
    by (simp only: mod_add_left_eq add.assoc)
  finally have wp: "report_write_ptr st' = (report_read_ptr st + (report_count st + 1))
              mod NEURAPP_REPORT_QUEUE_LENGTH" .
  have old: "reportqueue st' ((report_read_ptr st + k) mod NEURAPP_REPORT_QUEUE_LENGTH)
               = reportqueue st ((report_read_ptr st + k) mod NEURAPP_REPORT_QUEUE_LENGTH)"
    if "k < report_count st" for k
    using write_slot_free [OF i c that] by (simp add: st'_def)
  have new: "reportqueue st'
               ((report_read_ptr st + report_count st) mod NEURAPP_REPORT_QUEUE_LENGTH)
               (NEURAPP_REPORT_BUFFER_CHARS - 1) = NUL"
    using j by (simp add: st'_def)
  have nul: "reportqueue st' ((report_read_ptr st + k) mod NEURAPP_REPORT_QUEUE_LENGTH)
               (NEURAPP_REPORT_BUFFER_CHARS - 1) = NUL"
    if "k < report_count st + 1" for k
  proof (cases "k < report_count st")
    case True
    with j old [OF True] show ?thesis by simp
  next
    case False
    with that have "k = report_count st" by simp
    with new show ?thesis by simp
  qed
  have f: "report_count st' = report_count st + 1" "report_read_ptr st' = report_read_ptr st"
    "transmit_running st' = transmit_running st"
    by (simp_all add: st'_def)
  show "queue_inv st'"
    unfolding queue_inv_slots f wp using j c nul by simp
  show "queue_grows st st'"
    unfolding queue_grows_slots f using old by simp
qed

lemma report_not_made:
  fixes st :: NeurApp_Base and buffer :: "nat \<Rightarrow> char"
  assumes i: "queue_inv st" and c: "report_count st < NEURAPP_REPORT_QUEUE_LENGTH"
  defines "st' \<equiv> st \<lparr> reportqueue := (reportqueue st) (report_write_ptr st := buffer) \<rparr>"
  shows "queue_inv st'" and "queue_grows st st'"
proof -
  note j = i [unfolded queue_inv_slots]
  have old: "reportqueue st' ((report_read_ptr st + k) mod NEURAPP_REPORT_QUEUE_LENGTH)
               = reportqueue st ((report_read_ptr st + k) mod NEURAPP_REPORT_QUEUE_LENGTH)"
    if "k < report_count st" for k
    using write_slot_free [OF i c that] by (simp add: st'_def)
  have f: "report_count st' = report_count st" "report_read_ptr st' = report_read_ptr st"
    "transmit_running st' = transmit_running st" "report_write_ptr st' = report_write_ptr st"
    by (simp_all add: st'_def)
  show "queue_inv st'"
    unfolding queue_inv_slots f using j old by simp
  show "queue_grows st st'"
    unfolding queue_grows_slots f using old by simp
qed

lemma report_loop_full:
  "\<not> report_count st < NEURAPP_REPORT_QUEUE_LENGTH \<Longrightarrow> report_loop mk h (st, w) = (st, w)"
  by (simp add: report_loop.simps)

lemma report_loop_inv:
  "queue_inv st \<Longrightarrow>
   queue_inv (fst (report_loop mk h (st, w))) \<and> queue_grows st (fst (report_loop mk h (st, w)))"
proof (induction mk h "(st, w)" arbitrary: st w rule: report_loop.induct)
  case (1 mk h st w)
  show ?case
  proof (cases "report_count st < NEURAPP_REPORT_QUEUE_LENGTH")
    case False
    then show ?thesis
      using "1.prems" by (simp add: report_loop_full queue_grows_refl)
  next
    case True
    obtain made buffer w' where m: "mk h w (reportqueue st (report_write_ptr st)) = (made, buffer, w')"
      by (cases "mk h w (reportqueue st (report_write_ptr st))")
    show ?thesis
    proof (cases made)
      case False
      then have "report_loop mk h (st, w)
          = (st \<lparr> reportqueue := (reportqueue st) (report_write_ptr st := buffer) \<rparr>, w')"
        using True m by (simp add: report_loop.simps [of mk h st w])
      then show ?thesis
        using report_not_made [OF "1.prems" True, of buffer] by simp
    next
      case made: True
      let ?st' = "st \<lparr> reportqueue :=
                         (reportqueue st)
                           (report_write_ptr st :=
                              buffer (NEURAPP_REPORT_BUFFER_CHARS - 1 := NUL)),
                       report_count := report_count st + 1,
                       report_write_ptr :=
                         (if report_write_ptr st + 1 \<ge> NEURAPP_REPORT_QUEUE_LENGTH then 0
                          else report_write_ptr st + 1) \<rparr>"
      have r: "report_loop mk h (st, w) = report_loop mk h (?st', w')"
        using True m made by (simp add: report_loop.simps [of mk h st w])
      note s = report_made [OF "1.prems" True, of buffer]
      have "queue_inv (fst (report_loop mk h (?st', w')))
          \<and> queue_grows ?st' (fst (report_loop mk h (?st', w')))"
        using True m made s(1) by (intro "1.hyps") simp_all
      then show ?thesis
        unfolding r using s(2) queue_grows_trans by blast
    qed
  qed
qed
lemma queue_reports_inv:
  "queue_inv st \<Longrightarrow>
   queue_inv (fst (queue_reports mk lut (st, w)))
   \<and> queue_grows st (fst (queue_reports mk lut (st, w)))"
proof -
  have "queue_inv st \<Longrightarrow>
        queue_inv (fst (fold (\<lambda>hidx v. if first_of_run lut hidx
                                       then report_loop mk (handler (lut ! hidx)) v else v)
                         xs (st, w)))
        \<and> queue_grows st (fst (fold (\<lambda>hidx v. if first_of_run lut hidx
                                       then report_loop mk (handler (lut ! hidx)) v else v)
                         xs (st, w)))" for xs
  proof (induction xs arbitrary: st w)
    case Nil
    then show ?case by (simp add: queue_grows_refl)
  next
    case (Cons x xs)
    show ?case
    proof (cases "first_of_run lut x")
      case False
      then show ?thesis
        using Cons by simp
    next
      case True
      obtain st' w' where r: "report_loop mk (handler (lut ! x)) (st, w) = (st', w')"
        by (cases "report_loop mk (handler (lut ! x)) (st, w)")
      with report_loop_inv [OF Cons.prems, of mk "handler (lut ! x)" w]
      have s: "queue_inv st'" "queue_grows st st'"
        by simp_all
      from Cons.IH [OF s(1), of w'] True r s(2) show ?thesis
        by (auto intro: queue_grows_trans)
    qed
  qed
  then show "queue_inv st \<Longrightarrow> ?thesis"
    by (simp add: queue_reports_def)
qed

lemma queue_reports_full:
  assumes "\<not> report_count st < NEURAPP_REPORT_QUEUE_LENGTH"
  shows "queue_reports mk lut (st, w) = (st, w)"
proof -
  have "fold (\<lambda>hidx v. if first_of_run lut hidx
                        then report_loop mk (handler (lut ! hidx)) v else v) xs (st, w)
          = (st, w)" for xs
    by (induction xs) (simp_all add: report_loop_full [OF assms])
  then show ?thesis
    by (simp add: queue_reports_def)
qed

text \<open>Retiring the oldest slot.\<close>

lemma retire_inv:
  assumes i: "queue_inv st" and c: "0 < report_count st"
  shows "queue_inv
           (st \<lparr> transmit_running := b,
                 report_count := report_count st - 1,
                 report_read_ptr :=
                   (if report_read_ptr st + 1 \<ge> NEURAPP_REPORT_QUEUE_LENGTH then 0
                    else report_read_ptr st + 1) \<rparr>)"
proof -
  note j = i [unfolded queue_inv_slots]
  let ?r = "(report_read_ptr st + 1) mod NEURAPP_REPORT_QUEUE_LENGTH"
  have r: "(if report_read_ptr st + 1 \<ge> NEURAPP_REPORT_QUEUE_LENGTH then 0
            else report_read_ptr st + 1) = ?r"
    using j by (intro wrap_is_mod) simp
  have e: "(?r + k) mod NEURAPP_REPORT_QUEUE_LENGTH
             = (report_read_ptr st + (k + 1)) mod NEURAPP_REPORT_QUEUE_LENGTH" for k
    by (simp add: mod_add_left_eq add.assoc add.commute [of 1])
  have w: "report_write_ptr st = (?r + (report_count st - 1)) mod NEURAPP_REPORT_QUEUE_LENGTH"
    unfolding e using j c by simp
  have t: "reportqueue st ((?r + k) mod NEURAPP_REPORT_QUEUE_LENGTH)
             (NEURAPP_REPORT_BUFFER_CHARS - 1) = NUL"
    if "k < report_count st - 1" for k
  proof -
    have "k + 1 < report_count st"
      using that by simp
    with j show ?thesis
      unfolding e by blast
  qed
  have "report_count st \<le> NEURAPP_REPORT_QUEUE_LENGTH"
    using j by blast
  then have n: "report_count st - 1 \<le> NEURAPP_REPORT_QUEUE_LENGTH"
    by arith
  have q: "?r < NEURAPP_REPORT_QUEUE_LENGTH"
    by (simp add: queue_length)
  show ?thesis
    unfolding r queue_inv_slots using n q w t by simp
qed

lemma send_pending_cases:
  "send_pending (st, tx) =
     Some (if 0 < report_count st \<and> tx = None then
             (if transmit_running st then
                (if 1 < report_count st
                   then (st \<lparr> transmit_running := True,
                              report_count := report_count st - 1,
                              report_read_ptr :=
                                (if report_read_ptr st + 1 \<ge> NEURAPP_REPORT_QUEUE_LENGTH then 0
                                 else report_read_ptr st + 1) \<rparr>,
                         Some (ReportSlot
                                (if report_read_ptr st + 1 \<ge> NEURAPP_REPORT_QUEUE_LENGTH then 0
                                 else report_read_ptr st + 1)))
                 else (st \<lparr> transmit_running := False,
                            report_count := report_count st - 1,
                            report_read_ptr :=
                              (if report_read_ptr st + 1 \<ge> NEURAPP_REPORT_QUEUE_LENGTH then 0
                               else report_read_ptr st + 1) \<rparr>,
                       None))
              else (st \<lparr> transmit_running := True \<rparr>, Some (ReportSlot (report_read_ptr st))))
           else (st, tx))"
  by (auto simp: send_pending_def UART_IsSendInProgress_def UART_QueueSend_def Let_def)

lemma queue_inv_transmit_running:
  "queue_inv (st \<lparr> transmit_running := b \<rparr>) = queue_inv st"
  by (simp add: queue_inv_slots)

lemma send_pending_inv:
  assumes "queue_inv st"
  shows "\<exists>st1 tx1. send_pending (st, tx) = Some (st1, tx1) \<and> queue_inv st1
           \<and> reportqueue st1 = reportqueue st \<and> report_write_ptr st1 = report_write_ptr st
           \<and> (UART_IsSendInProgress tx \<longrightarrow> st1 = st \<and> tx1 = tx)
           \<and> (report_read_ptr st1 \<noteq> report_read_ptr st \<or> report_count st1 \<noteq> report_count st
                \<longrightarrow> \<not> UART_IsSendInProgress tx \<and> transmit_running st \<and> 0 < report_count st
                    \<and> report_count st1 = report_count st - 1
                    \<and> report_read_ptr st1
                        = (report_read_ptr st + 1) mod NEURAPP_REPORT_QUEUE_LENGTH)"
proof -
  have r: "(if report_read_ptr st + 1 \<ge> NEURAPP_REPORT_QUEUE_LENGTH then 0
            else report_read_ptr st + 1)
             = (report_read_ptr st + 1) mod NEURAPP_REPORT_QUEUE_LENGTH"
    using assms by (intro wrap_is_mod) (simp add: queue_inv_slots)
  show ?thesis
  proof (cases "0 < report_count st \<and> tx = None")
    case False
    then show ?thesis
      using assms by (auto simp: send_pending_cases UART_IsSendInProgress_def)
  next
    case True
    note i = retire_inv [OF assms, of _]
    show ?thesis
    proof (cases "transmit_running st")
      case False
      then show ?thesis
        using True assms
        by (simp add: send_pending_cases UART_IsSendInProgress_def queue_inv_transmit_running)
    next
      case tr: True
      show ?thesis
      proof (cases "1 < report_count st")
        case more: True
        then show ?thesis
          using True tr i [of True] r
          by (simp add: send_pending_cases UART_IsSendInProgress_def)
      next
        case False
        with True have "report_count st = 1"
          by simp
        then show ?thesis
          using True tr i [of False] r
          by (simp add: send_pending_cases UART_IsSendInProgress_def)
      qed
    qed
  qed
qed

lemma ReInitState_queue_inv: "queue_inv (fst (ReInitState st))"
  by (simp add: ReInitState_def queue_inv_slots queue_length)
text \<open>
  Claim C8. \<open>ReInitState\<close> leaves the queue in its invariant, and one pass of report
  handling from a queue in its invariant always returns (it never waits for the serial
  channel) and keeps the invariant: the count stays between 0 and
  \<open>NEURAPP_REPORT_QUEUE_LENGTH\<close>, the cursors stay consistent, and every queued slot has
  a terminator in its last byte, whatever the generators wrote. The sending step changes
  nothing while the channel reports a send in progress; it moves the read cursor or the
  count only when no send is in progress and a transmission was running, and then
  retires exactly the oldest slot. The queueing step keeps the read cursor, the transmit
  flag and the contents of the slots already queued; when the queue is full it calls no
  generator and changes nothing.
\<close>

theorem C8_report_queue:
  assumes "queue_inv st"
  shows "queue_inv (fst (ReInitState st0))
       \<and> (\<exists>st1 tx1 st2 w2.
            send_pending (st, tx) = Some (st1, tx1)
          \<and> queue_reports mk lut (st1, w) = (st2, w2)
          \<and> report_handling mk lut (st, tx, w) = Some (st2, tx1, w2)
          \<and> queue_inv st1 \<and> queue_inv st2
          \<and> report_count st2 \<le> NEURAPP_REPORT_QUEUE_LENGTH
          \<and> (\<forall>slot\<in>set (queued_slots st2).
                reportqueue st2 slot (NEURAPP_REPORT_BUFFER_CHARS - 1) = NUL)
          \<and> (UART_IsSendInProgress tx \<longrightarrow> st1 = st \<and> tx1 = tx)
          \<and> (report_read_ptr st2 \<noteq> report_read_ptr st \<or> report_count st1 \<noteq> report_count st
               \<longrightarrow> \<not> UART_IsSendInProgress tx \<and> transmit_running st \<and> 0 < report_count st
                   \<and> report_count st1 = report_count st - 1
                   \<and> report_read_ptr st2
                       = (report_read_ptr st + 1) mod NEURAPP_REPORT_QUEUE_LENGTH)
          \<and> queue_grows st1 st2
          \<and> (report_count st1 = NEURAPP_REPORT_QUEUE_LENGTH \<longrightarrow> st2 = st1 \<and> w2 = w))"
proof
  show "queue_inv (fst (ReInitState st0))"
    by (rule ReInitState_queue_inv)
  obtain st1 tx1 where s: "send_pending (st, tx) = Some (st1, tx1)" "queue_inv st1"
    "UART_IsSendInProgress tx \<longrightarrow> st1 = st \<and> tx1 = tx"
    "report_read_ptr st1 \<noteq> report_read_ptr st \<or> report_count st1 \<noteq> report_count st
       \<longrightarrow> \<not> UART_IsSendInProgress tx \<and> transmit_running st \<and> 0 < report_count st
           \<and> report_count st1 = report_count st - 1
           \<and> report_read_ptr st1 = (report_read_ptr st + 1) mod NEURAPP_REPORT_QUEUE_LENGTH"
    using send_pending_inv [OF assms, of tx] by blast
  obtain st2 w2 where q: "queue_reports mk lut (st1, w) = (st2, w2)"
    by (cases "queue_reports mk lut (st1, w)")
  from queue_reports_inv [OF s(2), of mk lut w] q
  have i: "queue_inv st2" "queue_grows st1 st2"
    by simp_all
  have r: "report_read_ptr st2 = report_read_ptr st1"
    using i(2) by (simp add: queue_grows_def)
  have ret: "report_read_ptr st2 \<noteq> report_read_ptr st \<or> report_count st1 \<noteq> report_count st
               \<longrightarrow> \<not> UART_IsSendInProgress tx \<and> transmit_running st \<and> 0 < report_count st
                   \<and> report_count st1 = report_count st - 1
                   \<and> report_read_ptr st2
                       = (report_read_ptr st + 1) mod NEURAPP_REPORT_QUEUE_LENGTH"
    using s(4) unfolding r .
  have f: "report_count st1 = NEURAPP_REPORT_QUEUE_LENGTH \<longrightarrow> st2 = st1 \<and> w2 = w"
    using q queue_reports_full [of st1 mk lut w] by simp
  have h: "report_handling mk lut (st, tx, w) = Some (st2, tx1, w2)"
    by (simp add: report_handling_def s(1) q)
  have b: "report_count st2 \<le> NEURAPP_REPORT_QUEUE_LENGTH"
    "\<forall>slot\<in>set (queued_slots st2). reportqueue st2 slot (NEURAPP_REPORT_BUFFER_CHARS - 1) = NUL"
    using i(1) by (simp_all add: queue_inv_def)
  show "\<exists>st1 tx1 st2 w2.
            send_pending (st, tx) = Some (st1, tx1)
          \<and> queue_reports mk lut (st1, w) = (st2, w2)
          \<and> report_handling mk lut (st, tx, w) = Some (st2, tx1, w2)
          \<and> queue_inv st1 \<and> queue_inv st2
          \<and> report_count st2 \<le> NEURAPP_REPORT_QUEUE_LENGTH
          \<and> (\<forall>slot\<in>set (queued_slots st2).
                reportqueue st2 slot (NEURAPP_REPORT_BUFFER_CHARS - 1) = NUL)
          \<and> (UART_IsSendInProgress tx \<longrightarrow> st1 = st \<and> tx1 = tx)
          \<and> (report_read_ptr st2 \<noteq> report_read_ptr st \<or> report_count st1 \<noteq> report_count st
               \<longrightarrow> \<not> UART_IsSendInProgress tx \<and> transmit_running st \<and> 0 < report_count st
                   \<and> report_count st1 = report_count st - 1
                   \<and> report_read_ptr st2
                       = (report_read_ptr st + 1) mod NEURAPP_REPORT_QUEUE_LENGTH)
          \<and> queue_grows st1 st2
          \<and> (report_count st1 = NEURAPP_REPORT_QUEUE_LENGTH \<longrightarrow> st2 = st1 \<and> w2 = w)"
    by (intro exI [of _ st1] exI [of _ tx1] exI [of _ st2] exI [of _ w2] conjI
        s(1) q h s(2) i(1) b s(3) ret i(2) f)
qed
theorem C8_report_queue_witness:
  "queue_inv example_app \<and> queue_inv example_full
   \<and> (\<exists>st2 tx1 w2.
         report_handling example_generator example_lut (example_app, None, 6)
           = Some (st2, tx1, w2)
         \<and> queue_inv st2 \<and> report_count st2 = 4 \<and> w2 = 2)
   \<and> UART_IsSendInProgress (Some (ReportSlot 0))
   \<and> report_handling example_generator example_lut (example_full, Some (ReportSlot 0), 6)
       = Some (example_full, Some (ReportSlot 0), 6)
   \<and> (\<exists>st2 w2.
         report_handling example_generator example_lut (example_full, None, 6)
           = Some (st2, Some (ReportSlot 1), w2)
         \<and> report_read_ptr st2 = 1 \<and> report_read_ptr st2 \<noteq> report_read_ptr example_full
         \<and> queue_inv st2 \<and> \<not> UART_IsSendInProgress None \<and> transmit_running example_full)"
proof -
  have ia: "queue_inv example_app" and ib: "queue_inv example_full"
    by code_simp+
  have p: "UART_IsSendInProgress (Some (ReportSlot 0))"
    by (simp add: UART_IsSendInProgress_def)
  have c: "report_count example_full = NEURAPP_REPORT_QUEUE_LENGTH"
    "report_read_ptr example_full = 0"
    by (simp_all add: example_full_def example_app_def)
  have ea: "map_option (\<lambda>(st, tx, w). (report_count st, w))
              (report_handling example_generator example_lut (example_app, None, 6))
            = Some (4, 2)"
    by code_simp
  have ec: "map_option (\<lambda>(st, tx, w). (report_read_ptr st, tx))
              (report_handling example_generator example_lut (example_full, None, 6))
            = Some (1, Some (ReportSlot 1))"
    by code_simp
  have a: "\<exists>st2 tx1 w2.
         report_handling example_generator example_lut (example_app, None, 6)
           = Some (st2, tx1, w2)
         \<and> queue_inv st2 \<and> report_count st2 = 4 \<and> w2 = 2"
    using C8_report_queue [OF ia, of example_app None example_generator example_lut 6] ea
    by auto
  have b: "report_handling example_generator example_lut (example_full, Some (ReportSlot 0), 6)
       = Some (example_full, Some (ReportSlot 0), 6)"
    using C8_report_queue [OF ib, of example_app "Some (ReportSlot 0)" example_generator
        example_lut 6] p c(1)
    by auto
  have d: "\<exists>st2 w2.
         report_handling example_generator example_lut (example_full, None, 6)
           = Some (st2, Some (ReportSlot 1), w2)
         \<and> report_read_ptr st2 = 1 \<and> report_read_ptr st2 \<noteq> report_read_ptr example_full
         \<and> queue_inv st2 \<and> \<not> UART_IsSendInProgress None \<and> transmit_running example_full"
    using C8_report_queue [OF ib, of example_app None example_generator example_lut 6] ec c(2)
    by auto
  from ia ib a p b d show ?thesis
    by blast
qed
end
